theory Spec2Isabelle
  imports Main
begin

section \<open>Strings\<close>

text \<open>
  A text is a \<^typ>\<open>string\<close>: a sequence of code units below 256 (Latin-1). On these,
  the white space of \<^verbatim>\<open>String.prototype.trim\<close> and of the class \<^verbatim>\<open>\s\<close>
  is tab, line feed, vertical tab, form feed, carriage return, space and no-break space;
  the line terminators are line feed and carriage return.
\<close>

definition upper_chars :: string where
  "upper_chars = ''ABCDEFGHIJKLMNOPQRSTUVWXYZ''"

definition lower_chars :: string where
  "lower_chars = ''abcdefghijklmnopqrstuvwxyz''"

definition is_upper :: "char \<Rightarrow> bool" where
  "is_upper c = (c \<in> set upper_chars)"

definition is_lower :: "char \<Rightarrow> bool" where
  "is_lower c = (c \<in> set lower_chars)"

definition is_digit :: "char \<Rightarrow> bool" where
  "is_digit c = (c \<in> set ''0123456789'')"

definition is_letter :: "char \<Rightarrow> bool" where
  "is_letter c = (is_upper c \<or> is_lower c)"

definition is_space :: "char \<Rightarrow> bool" where
  "is_space c = (c \<in> set [CHR 0x09, CHR 0x0A, CHR 0x0B, CHR 0x0C, CHR 0x0D, CHR 0x20, CHR 0xA0])"

definition is_line_terminator :: "char \<Rightarrow> bool" where
  "is_line_terminator c = (c = CHR 0x0A \<or> c = CHR 0x0D)"

definition is_word_char :: "char \<Rightarrow> bool" where
  "is_word_char c = (is_upper c \<or> is_lower c \<or> is_digit c \<or> c = CHR ''_'')"

text \<open>
  The letters of Latin-1 beyond ASCII that have a partner of the other case in Latin-1:
  the capitals 0xC0 to 0xDE without the multiplication sign 0xD7, and the small letters
  0xE0 to 0xFE without the division sign 0xF7, in the same order.
\<close>

definition latin1_upper_chars :: string where
  "latin1_upper_chars =
     [CHR 0xC0, CHR 0xC1, CHR 0xC2, CHR 0xC3, CHR 0xC4, CHR 0xC5, CHR 0xC6, CHR 0xC7,
      CHR 0xC8, CHR 0xC9, CHR 0xCA, CHR 0xCB, CHR 0xCC, CHR 0xCD, CHR 0xCE, CHR 0xCF,
      CHR 0xD0, CHR 0xD1, CHR 0xD2, CHR 0xD3, CHR 0xD4, CHR 0xD5, CHR 0xD6,
      CHR 0xD8, CHR 0xD9, CHR 0xDA, CHR 0xDB, CHR 0xDC, CHR 0xDD, CHR 0xDE]"

definition latin1_lower_chars :: string where
  "latin1_lower_chars =
     [CHR 0xE0, CHR 0xE1, CHR 0xE2, CHR 0xE3, CHR 0xE4, CHR 0xE5, CHR 0xE6, CHR 0xE7,
      CHR 0xE8, CHR 0xE9, CHR 0xEA, CHR 0xEB, CHR 0xEC, CHR 0xED, CHR 0xEE, CHR 0xEF,
      CHR 0xF0, CHR 0xF1, CHR 0xF2, CHR 0xF3, CHR 0xF4, CHR 0xF5, CHR 0xF6,
      CHR 0xF8, CHR 0xF9, CHR 0xFA, CHR 0xFB, CHR 0xFC, CHR 0xFD, CHR 0xFE]"

text \<open>
  A letter and its partner of the other case differ in the bit of weight 32, which the
  small letter has and the capital has not.
\<close>

definition set_bit_32 :: "bool \<Rightarrow> char \<Rightarrow> char" where
  "set_bit_32 b c = (case c of Char b0 b1 b2 b3 b4 b5 b6 b7 \<Rightarrow> Char b0 b1 b2 b3 b4 b b6 b7)"

text \<open>\<^verbatim>\<open>toLowerCase\<close> on one code unit, and on a string.\<close>

definition toLowerCase_char :: "char \<Rightarrow> char" where
  "toLowerCase_char c =
     (if is_upper c \<or> c \<in> set latin1_upper_chars then set_bit_32 True c else c)"

definition toLowerCase :: "string \<Rightarrow> string" where
  "toLowerCase s = map toLowerCase_char s"

text \<open>
  The canonical form a regular expression with the flag \<^verbatim>\<open>i\<close> compares: the upper
  case of the code unit where that is again one code unit of the same range.
\<close>

definition canonicalize :: "char \<Rightarrow> char" where
  "canonicalize c =
     (if is_lower c \<or> c \<in> set latin1_lower_chars then set_bit_32 False c else c)"

definition trim :: "string \<Rightarrow> string" where
  "trim s = rev (dropWhile is_space (rev (dropWhile is_space s)))"

fun starts_with :: "string \<Rightarrow> string \<Rightarrow> bool" where
  "starts_with s [] = True"
| "starts_with [] (f # fs) = False"
| "starts_with (c # cs) (f # fs) = (c = f \<and> starts_with cs fs)"

text \<open>\<^verbatim>\<open>s.includes(f)\<close>: \<open>f\<close> occurs in \<open>s\<close> as a contiguous run.\<close>

fun str_includes :: "string \<Rightarrow> string \<Rightarrow> bool" where
  "str_includes [] f = (f = [])"
| "str_includes (c # cs) f = (starts_with (c # cs) f \<or> str_includes cs f)"

text \<open>\<^verbatim>\<open>s.indexOf(f)\<close>, counted from \<open>i\<close>: the first index, or -1.\<close>

fun index_from :: "nat \<Rightarrow> string \<Rightarrow> string \<Rightarrow> int" where
  "index_from i [] f = (if f = [] then int i else - 1)"
| "index_from i (c # cs) f = (if starts_with (c # cs) f then int i else index_from (Suc i) cs f)"

definition indexOf :: "string \<Rightarrow> string \<Rightarrow> int" where
  "indexOf s f = index_from 0 s f"

text \<open>
  \<^verbatim>\<open>s.split(/\s+/)\<close>: the pieces between the maximal runs of white space, the empty
  piece before a leading run and after a trailing one included.
\<close>

function split_space :: "string \<Rightarrow> string \<Rightarrow> string list" where
  "split_space cur [] = [cur]"
| "split_space cur (c # cs) =
     (if is_space c then cur # split_space [] (dropWhile is_space cs)
      else split_space (cur @ [c]) cs)"
  by pat_completeness auto
termination
  by (relation "measure (\<lambda>(cur, s). length s)")
     (auto simp: length_dropWhile_le less_Suc_eq_le)

section \<open>Regular expressions\<close>

text \<open>
  The regular expressions of the source are data, and one backtracking matcher runs them
  as the engine of the language does: alternatives left to right, repetition greedy. A
  cursor is the code unit before the current index, if any, and the rest of the input.
\<close>

type_synonym cursor = "char option \<times> string"

datatype rx =
    RLit string
  | RCls "char \<Rightarrow> bool"
  | RNotCls "char \<Rightarrow> bool"
  | RBol
  | REol
  | RWordB
  | RSeq rx rx
  | RAlt rx rx
  | RRep nat "nat option" rx

record flags =
  ignoreCase :: bool
  multiline :: bool

abbreviation Many :: "rx \<Rightarrow> rx" where
  "Many r \<equiv> RRep 0 None r"

abbreviation Many1 :: "rx \<Rightarrow> rx" where
  "Many1 r \<equiv> RRep 1 None r"

abbreviation Maybe :: "rx \<Rightarrow> rx" where
  "Maybe r \<equiv> RRep 0 (Some 1) r"

fun seqs :: "rx list \<Rightarrow> rx" where
  "seqs [] = RLit []"
| "seqs [r] = r"
| "seqs (r # rs) = RSeq r (seqs rs)"

fun alts :: "rx list \<Rightarrow> rx" where
  "alts [] = RCls (\<lambda>c. False)"
| "alts [r] = r"
| "alts (r # rs) = RAlt r (alts rs)"

definition same_char :: "bool \<Rightarrow> char \<Rightarrow> char \<Rightarrow> bool" where
  "same_char ic c d = (if ic then canonicalize c = canonicalize d else c = d)"

text \<open>
  A class \<open>RCls P\<close> holds the code units that \<open>P\<close> lists, a class \<open>RNotCls P\<close>,
  written \<^verbatim>\<open>[^...]\<close>, all others. With the flag \<^verbatim>\<open>i\<close> a code unit is in the
  listed ones when its canonical form is that of one of them: when the code unit itself or
  its partner of the other case is listed.
\<close>

definition in_class :: "bool \<Rightarrow> (char \<Rightarrow> bool) \<Rightarrow> char \<Rightarrow> bool" where
  "in_class ic P d = (P d \<or> (ic \<and> (P (canonicalize d) \<or> P (toLowerCase_char d))))"

fun lit :: "bool \<Rightarrow> string \<Rightarrow> cursor \<Rightarrow> cursor option" where
  "lit ic [] cur = Some cur"
| "lit ic (c # cs) (p, []) = None"
| "lit ic (c # cs) (p, d # ds) = (if same_char ic c d then lit ic cs (Some d, ds) else None)"

definition at_bol :: "flags \<Rightarrow> cursor \<Rightarrow> bool" where
  "at_bol fl cur = (case fst cur of None \<Rightarrow> True | Some p \<Rightarrow> multiline fl \<and> is_line_terminator p)"

definition at_eol :: "flags \<Rightarrow> cursor \<Rightarrow> bool" where
  "at_eol fl cur = (case snd cur of [] \<Rightarrow> True | c # cs \<Rightarrow> multiline fl \<and> is_line_terminator c)"

definition at_word_boundary :: "cursor \<Rightarrow> bool" where
  "at_word_boundary cur =
     ((case fst cur of None \<Rightarrow> False | Some p \<Rightarrow> is_word_char p) \<noteq>
      (case snd cur of [] \<Rightarrow> False | c # cs \<Rightarrow> is_word_char c))"

text \<open>
  The repeat matcher: \<open>m\<close> matches the repeated atom, \<open>mn\<close> and \<open>mx\<close> are the
  iterations still owed and still allowed. Once the owed ones are done, an iteration that
  consumes nothing is refused. \<open>fuel\<close> bounds the iterations by the owed ones plus the
  code units left, which no run can exceed.
\<close>

primrec rep :: "(cursor \<Rightarrow> (cursor \<Rightarrow> cursor option) \<Rightarrow> cursor option) \<Rightarrow> nat \<Rightarrow> nat \<Rightarrow> nat option
                 \<Rightarrow> cursor \<Rightarrow> (cursor \<Rightarrow> cursor option) \<Rightarrow> cursor option" where
  "rep m 0 mn mx cur k = (if mn = 0 then k cur else None)"
| "rep m (Suc fuel) mn mx cur k =
     (if mx = Some 0 then k cur
      else if mn \<noteq> 0
        then m cur (\<lambda>cur'. rep m fuel (mn - 1) (map_option (\<lambda>n. n - 1) mx) cur' k)
        else (case m cur (\<lambda>cur'. if length (snd cur') = length (snd cur) then None
                                   else rep m fuel 0 (map_option (\<lambda>n. n - 1) mx) cur' k) of
                Some r \<Rightarrow> Some r
              | None \<Rightarrow> k cur))"

text \<open>
  \<open>bt r fl cur k\<close>: match \<open>r\<close> at \<open>cur\<close> and continue with \<open>k\<close>; the first success in
  the order of the engine, or \<open>None\<close>.
\<close>

primrec bt :: "rx \<Rightarrow> flags \<Rightarrow> cursor \<Rightarrow> (cursor \<Rightarrow> cursor option) \<Rightarrow> cursor option" where
  "bt (RLit s) fl cur k = (case lit (ignoreCase fl) s cur of None \<Rightarrow> None | Some cur' \<Rightarrow> k cur')"
| "bt (RCls P) fl cur k =
     (case snd cur of [] \<Rightarrow> None
      | c # cs \<Rightarrow> if in_class (ignoreCase fl) P c then k (Some c, cs) else None)"
| "bt (RNotCls P) fl cur k =
     (case snd cur of [] \<Rightarrow> None
      | c # cs \<Rightarrow> if \<not> in_class (ignoreCase fl) P c then k (Some c, cs) else None)"
| "bt RBol fl cur k = (if at_bol fl cur then k cur else None)"
| "bt REol fl cur k = (if at_eol fl cur then k cur else None)"
| "bt RWordB fl cur k = (if at_word_boundary cur then k cur else None)"
| "bt (RSeq a b) fl cur k = bt a fl cur (\<lambda>cur'. bt b fl cur' k)"
| "bt (RAlt a b) fl cur k = (case bt a fl cur k of Some r \<Rightarrow> Some r | None \<Rightarrow> bt b fl cur k)"
| "bt (RRep mn mx a) fl cur k = rep (bt a fl) (mn + length (snd cur)) mn mx cur k"

text \<open>
  The search of \<^verbatim>\<open>exec\<close>: the leftmost index from the cursor on at which the
  expression matches; the cursors where the match starts and ends.
\<close>

fun rx_search :: "flags \<Rightarrow> rx \<Rightarrow> cursor \<Rightarrow> (cursor \<times> cursor) option" where
  "rx_search fl r (p, s) =
     (case bt r fl (p, s) Some of
        Some e \<Rightarrow> Some ((p, s), e)
      | None \<Rightarrow> (case s of [] \<Rightarrow> None | c # cs \<Rightarrow> rx_search fl r (Some c, cs)))"

declare rx_search.simps [simp del]

text \<open>\<^verbatim>\<open>regex.test(s)\<close> for an expression without the flag \<^verbatim>\<open>g\<close>.\<close>

definition rx_test :: "flags \<Rightarrow> rx \<Rightarrow> string \<Rightarrow> bool" where
  "rx_test fl r s = (rx_search fl r (None, s) \<noteq> None)"

text \<open>The text of a match, \<^verbatim>\<open>match[0]\<close>, between its two cursors.\<close>

definition matched :: "cursor \<Rightarrow> cursor \<Rightarrow> string" where
  "matched start fin = take (length (snd start) - length (snd fin)) (snd start)"

definition no_flags :: flags where
  "no_flags = \<lparr>ignoreCase = False, multiline = False\<rparr>"

definition flag_i :: flags where
  "flag_i = \<lparr>ignoreCase = True, multiline = False\<rparr>"

definition flag_m :: flags where
  "flag_m = \<lparr>ignoreCase = False, multiline = True\<rparr>"

definition flag_im :: flags where
  "flag_im = \<lparr>ignoreCase = True, multiline = True\<rparr>"

definition dot :: rx where
  "dot = RCls (\<lambda>c. \<not> is_line_terminator c)"

definition sp :: rx where
  "sp = RCls is_space"

definition not_end_punct :: rx where
  "not_end_punct = RNotCls (\<lambda>c. c \<in> set ''.!?'')"

definition lits :: "string list \<Rightarrow> rx" where
  "lits ws = alts (map RLit ws)"

section \<open>The data model\<close>

text \<open>
  \<^verbatim>\<open>GrammarError\<close> and \<^verbatim>\<open>CheckResult\<close> of grammarChecker.ts. The fields
  \<^verbatim>\<open>context\<close> and \<^verbatim>\<open>length\<close> carry a prime here.
\<close>

record position =
  offset :: int
  length' :: nat

record GrammarError =
  message :: string
  context' :: string
  suggestions :: "string list"
  ruleId :: string
  position :: position

record CheckResult =
  url :: string
  totalErrors :: nat
  errors :: "GrammarError list"
  rawText :: string

text \<open>The options of the constructor, each of them optional, and the checker.\<close>

record options =
  language :: "string option"
  motherTongue :: "string option"
  disabledRules :: "string list option"
  detectIncomplete :: "bool option"

record GrammarChecker =
  options :: options
  processedFragments :: "string set"

definition constructor :: "options \<Rightarrow> GrammarChecker" where
  "constructor opts =
     \<lparr>options = opts
        \<lparr>language := Some (case language opts of None \<Rightarrow> ''en-US''
                            | Some l \<Rightarrow> if l = [] then ''en-US'' else l),
         detectIncomplete := Some (detectIncomplete opts \<noteq> Some False)\<rparr>,
      processedFragments = {}\<rparr>"

section \<open>Headings and text to skip\<close>

definition rx_heading_tail :: rx where
  "rx_heading_tail =
     Many1 (seqs [Many1 sp, RCls is_upper,
                  Many (RCls (\<lambda>c. is_lower c \<or> is_upper c \<or> is_digit c \<or> is_space c))])"

definition rx_numbered_heading :: rx where
  "rx_numbered_heading =
     seqs [RBol, RAlt (RCls is_upper) (Many1 (RCls is_digit)), RLit ''.'', rx_heading_tail, REol]"

definition rx_roman_heading :: rx where
  "rx_roman_heading =
     seqs [RBol,
           lits [''I'', ''II'', ''III'', ''IV'', ''V'', ''VI'', ''VII'', ''VIII'', ''IX'', ''X'',
                 ''XI'', ''XII''],
           RLit ''.'', rx_heading_tail, REol]"

definition rx_title_case :: rx where
  "rx_title_case =
     seqs [RBol,
           RRep 1 (Some 7) (seqs [RCls is_upper, Many (RCls (\<lambda>c. is_lower c \<or> is_digit c)), Many1 sp]),
           RCls is_upper, Many (RCls (\<lambda>c. is_lower c \<or> is_digit c)), REol]"

definition rx_of_heading :: rx where
  "rx_of_heading =
     seqs [RBol,
           RRep 0 (Some 2) (seqs [RCls is_upper, Many1 (RCls is_lower), Many1 sp]),
           RLit ''of'',
           RRep 1 (Some 3) (seqs [Many1 sp, RCls is_upper, Many1 (RCls is_lower)]),
           REol]"

definition rx_the_right_to :: rx where
  "rx_the_right_to =
     seqs [RBol, RLit ''The'', Many1 sp, RLit ''Right'', Many1 sp, RLit ''to'', Many1 sp,
           RCls is_upper, Many (RCls (\<lambda>c. is_lower c \<or> is_upper c \<or> is_space c)), REol]"

definition rx_how_to :: rx where
  "rx_how_to =
     seqs [RBol, RLit ''How'', Many1 sp, RAlt (RLit ''to'') (RLit ''We''), Many1 sp,
           RCls is_upper, Many (RCls (\<lambda>c. is_lower c \<or> is_upper c \<or> is_space c)), REol]"

definition rx_title_with_org :: rx where
  "rx_title_with_org =
     seqs [RBol, RCls is_upper, Many1 (RCls is_lower),
           Many (seqs [Many1 sp, RCls is_upper, Many1 (RCls is_lower)]),
           RLit '':'', Many dot, RLit ''('', RCls (\<lambda>c. c = CHR 0x22),
           Many1 (RNotCls (\<lambda>c. c = CHR '')'')), RCls (\<lambda>c. c = CHR 0x22), RLit '')'', REol]"

definition commonTitles :: "string list" where
  "commonTitles =
     [''introduction'', ''purpose'', ''scope'', ''definitions'',
      ''privacy policy'', ''terms of service'', ''disclaimer'',
      ''collection of information'', ''use of information'',
      ''information sharing'', ''data protection'', ''security measures'',
      ''your rights'', ''contact us'', ''effective date'']"

definition isHeadingOrTitle :: "string \<Rightarrow> bool" where
  "isHeadingOrTitle txt =
     (let trimmedText = trim txt in
      if trimmedText = [] then False
      else if rx_test no_flags rx_numbered_heading trimmedText then True
      else if rx_test no_flags rx_roman_heading trimmedText then True
      else if rx_test no_flags rx_title_case trimmedText \<and> length trimmedText < 60
              \<and> \<not> str_includes trimmedText '','' then True
      else if rx_test no_flags rx_of_heading trimmedText then True
      else if rx_test no_flags rx_the_right_to trimmedText then True
      else if rx_test no_flags rx_how_to trimmedText then True
      else if rx_test no_flags rx_title_with_org trimmedText then True
      else list_ex (\<lambda>title. toLowerCase trimmedText = title) commonTitles)"

definition rx_colon_heading :: rx where
  "rx_colon_heading =
     seqs [RBol, RCls is_upper, RRep 3 None (RCls (\<lambda>c. is_upper c \<or> is_lower c \<or> is_space c)),
           RLit '':'', REol]"

definition rx_list_intro :: rx where
  "rx_list_intro =
     seqs [RBol, Many1 (RCls (\<lambda>c. is_upper c \<or> is_lower c \<or> is_space c)),
           lits [''include'', ''are'', ''following'', ''include but are not limited to''],
           RLit '':'', REol]"

text \<open>
  The fourth alternative of the list-item expression is the bullet U+2022, which is no
  code unit of a \<^typ>\<open>string\<close>: the class that stands for it is empty.
\<close>

definition rx_list_item :: rx where
  "rx_list_item =
     seqs [RBol,
           alts [RSeq (Many1 (RCls is_digit)) (RLit ''.''), RLit ''*'', RLit ''-'', RCls (\<lambda>c. False)],
           Many1 sp, RCls is_letter]"

definition uiPatterns :: "rx list" where
  "uiPatterns =
     [seqs [RBol, lits [''Home'', ''About'', ''Contact'', ''Login'', ''Signup'', ''Videos'', ''Menu''], REol],
      seqs [RBol, lits [''Accept'', ''Decline'', ''Submit'', ''Cancel'', ''Next'', ''Previous''], REol],
      seqs [RBol, lits [''Terms and Conditions'', ''Privacy Policy''], REol],
      seqs [RBol, lits [''Skip to content'', ''Log In'', ''Sign Up''], REol]]"

definition rx_consent_words :: rx where
  "rx_consent_words = lits [''cookie'', ''consent'', ''accept'', ''decline'', ''privacy'']"

definition rx_site_words :: rx where
  "rx_site_words = lits [''website'', ''experience'', ''browse'', ''uses'']"

definition rx_metadata :: rx where
  "rx_metadata =
     alts [seqs [RBol, RLit ''Version'', Many1 sp, RLit ''Date:''],
           seqs [RBol, RLit ''Last'', Many1 sp, RLit ''Updated:''],
           seqs [RBol, RLit ''Effective'', Many1 sp, RLit ''Date:'']]"

definition shouldSkipText :: "string \<Rightarrow> bool" where
  "shouldSkipText txt =
     (let trimmedText = trim txt in
      if trimmedText = [] then True
      else if isHeadingOrTitle trimmedText then True
      else if rx_test no_flags rx_colon_heading trimmedText then True
      else if rx_test no_flags rx_list_intro trimmedText then True
      else if rx_test no_flags rx_list_item trimmedText
              \<and> \<not> str_includes (drop 2 trimmedText) ''.'' then True
      else if list_ex (\<lambda>pattern. rx_test flag_i pattern trimmedText) uiPatterns then True
      else if rx_test flag_i rx_consent_words trimmedText
              \<and> rx_test flag_i rx_site_words trimmedText then True
      else if rx_test flag_i rx_metadata trimmedText then True
      else False)"

definition prepositions :: "string list" where
  "prepositions = [''of'', ''to'', ''for'', ''with'', ''by'', ''from'', ''in'', ''on'', ''at'', ''about'']"

definition headingWithPrepositionPatterns :: "rx list" where
  "headingWithPrepositionPatterns =
     [seqs [RBol,
            RRep 0 (Some 2) (seqs [RCls is_upper, Many1 (RCls is_lower), Many1 sp]),
            lits prepositions,
            RRep 1 (Some 3) (seqs [Many1 sp, RCls is_upper, Many1 (RCls is_lower)]),
            REol],
      seqs [RBol, RLit ''The'', Many1 sp, RCls is_upper, Many1 (RCls is_lower), Many1 sp,
            lits prepositions, Many1 sp, RCls is_upper, Many1 (RCls is_lower)],
      seqs [RBol, RLit ''How'', Many1 sp, RLit ''to'', Many1 sp, RCls is_upper,
            Many1 (RCls is_lower)]]"

definition isPrepositionInHeading :: "string \<Rightarrow> bool" where
  "isPrepositionInHeading txt =
     list_ex (\<lambda>pattern. rx_test no_flags pattern (trim txt)) headingWithPrepositionPatterns"

section \<open>The content test\<close>

definition rx_subject_verb :: rx where
  "rx_subject_verb =
     seqs [RWordB,
           lits [''the'', ''a'', ''an'', ''this'', ''that'', ''these'', ''those'', ''we'', ''you'',
                 ''they'', ''he'', ''she'', ''it'', ''I''],
           RWordB, Many dot, RWordB,
           lits [''am'', ''is'', ''are'', ''was'', ''were'', ''have'', ''has'', ''had'', ''do'',
                 ''does'', ''did'', ''will'', ''shall'', ''may'', ''might'', ''can'', ''could'',
                 ''would'', ''should'', ''must''],
           RWordB]"

definition codeWords :: "string list" where
  "codeWords = [''width'', ''height'', ''margin'', ''padding'', ''color'', ''font'', ''grid'',
                ''flex'', ''style'', ''class'', ''display'', ''position'']"

definition is_special_char :: "char \<Rightarrow> bool" where
  "is_special_char c = (c \<in> set (''{}[]()=<>:;$&#%~^|'' @ [CHR 0x60, CHR 0x5C]))"

definition rx_colon_tail :: rx where
  "rx_colon_tail = seqs [RLit '':'', Maybe (RNotCls (\<lambda>c. c = CHR ''.'')), REol]"

text \<open>
  The density test \<^verbatim>\<open>specialChars / text.length < 0.05\<close> is on doubles; for the
  lengths of a text it holds exactly when twenty times the count is below the length.
\<close>

definition isContentSentence :: "string \<Rightarrow> bool" where
  "isContentSentence txt =
     (if length txt < 15 then False
      else let words = filter (\<lambda>word. length word > 0) (split_space [] txt) in
        if length words < 4 then False
        else let hasSubjectVerb = rx_test flag_i rx_subject_verb txt;
                 hasCodeWords = list_ex (\<lambda>word. str_includes (toLowerCase txt) word) codeWords;
                 specialChars = length (filter is_special_char txt)
             in if rx_test no_flags rx_colon_tail (trim txt) then False
                else (hasSubjectVerb \<or>
                      (length words \<ge> 7 \<and> \<not> hasCodeWords \<and> 20 * specialChars < length txt)))"

section \<open>The sentence detector\<close>

text \<open>
  \<^verbatim>\<open>detectIncompleteWithCompromise\<close>. The sentences come from the library
  compromise, \<^verbatim>\<open>nlp(text).sentences().out('array')\<close>, which is no code of the
  repository: the splitter is the parameter \<open>sentences\<close>. The loop carries the set
  \<^verbatim>\<open>processedFragments\<close> of the checker and the errors pushed so far.
\<close>

definition rx_end_punct :: rx where
  "rx_end_punct = RSeq (RCls (\<lambda>c. c \<in> set ''.!?'')) REol"

definition missing_end_punctuation :: "string \<Rightarrow> string \<Rightarrow> GrammarError" where
  "missing_end_punctuation txt sentenceText =
     \<lparr>message = ''Sentence does not end with proper punctuation'',
      context' = trim sentenceText,
      suggestions = [''Add appropriate ending punctuation (period, exclamation mark, or question mark)''],
      ruleId = ''MISSING_END_PUNCTUATION'',
      position = \<lparr>offset = indexOf txt sentenceText, length' = length sentenceText\<rparr>\<rparr>"

definition sentence_step :: "string \<Rightarrow> string set \<times> GrammarError list \<Rightarrow> string
                              \<Rightarrow> string set \<times> GrammarError list" where
  "sentence_step txt acc sentenceText =
     (let pf = fst acc; errs = snd acc in
      if trim sentenceText = [] \<or> length (trim sentenceText) < 10 then (pf, errs)
      else if trim sentenceText \<in> pf then (pf, errs)
      else let pf' = insert (trim sentenceText) pf in
        if shouldSkipText sentenceText then (pf', errs)
        else if isHeadingOrTitle (trim sentenceText) then (pf', errs)
        else if \<not> rx_test no_flags rx_end_punct (trim sentenceText)
                \<and> isContentSentence sentenceText
          then (pf', errs @ [missing_end_punctuation txt sentenceText])
          else (pf', errs))"

fun sentence_loop :: "string \<Rightarrow> string list \<Rightarrow> string set \<times> GrammarError list
                       \<Rightarrow> string set \<times> GrammarError list" where
  "sentence_loop txt [] acc = acc"
| "sentence_loop txt (sentenceText # rest) acc =
     sentence_loop txt rest (sentence_step txt acc sentenceText)"

definition detectIncompleteWithCompromise
  :: "(string \<Rightarrow> string list) \<Rightarrow> GrammarChecker \<Rightarrow> string \<Rightarrow> GrammarError list \<times> GrammarChecker" where
  "detectIncompleteWithCompromise sentences this txt =
     (if detectIncomplete (options this) \<noteq> Some True then ([], this)
      else let acc = sentence_loop txt (sentences txt) (processedFragments this, [])
           in (snd acc, this\<lparr>processedFragments := fst acc\<rparr>))"

section \<open>The pattern matcher\<close>

record pattern =
  regex :: rx
  regex_flags :: flags
  pattern_message :: string
  pattern_ruleId :: string
  suggestion :: string

definition rx_transitive_verb :: rx where
  "rx_transitive_verb =
     seqs [RWordB, lits [''please note'', ''it is important to note''], Many dot, RWordB,
           lits [''do not'', ''does not'', ''will not'', ''cannot''], RWordB, Many dot, RWordB,
           lits [''recognize'', ''respond'', ''reply'', ''acknowledge''], RWordB,
           Many not_end_punct, REol]"

definition rx_hanging_preposition :: rx where
  "rx_hanging_preposition =
     seqs [RWordB, RCls is_upper, RRep 10 None not_end_punct,
           lits [''to'', ''for'', ''with'', ''by'', ''from'', ''in'', ''on'', ''at'', ''about'', ''upon''],
           Many not_end_punct, REol]"

definition rx_browser_initiated :: rx where
  "rx_browser_initiated =
     seqs [Many not_end_punct, RWordB, RLit ''browser-initiated'', RWordB, Many not_end_punct, REol]"

definition patterns :: "pattern list" where
  "patterns =
     [\<lparr>regex = rx_transitive_verb, regex_flags = flag_im,
       pattern_message = ''Incomplete sentence missing object after transitive verb'',
       pattern_ruleId = ''INCOMPLETE_TRANSITIVE_VERB'',
       suggestion = ''Complete the sentence by specifying what is recognized or responded to''\<rparr>,
      \<lparr>regex = rx_hanging_preposition, regex_flags = flag_m,
       pattern_message = ''Sentence ends with a preposition'',
       pattern_ruleId = ''HANGING_PREPOSITION'',
       suggestion = ''Complete the prepositional phrase with an object''\<rparr>,
      \<lparr>regex = rx_browser_initiated, regex_flags = flag_m,
       pattern_message = ''Incomplete sentence with '' @ [CHR 0x22] @ ''browser-initiated'' @ [CHR 0x22],
       pattern_ruleId = ''INCOMPLETE_BROWSER_INITIATED'',
       suggestion = ''Complete the sentence with what happens with browser-initiated requests/actions''\<rparr>]"

text \<open>The body of the \<^verbatim>\<open>while\<close> loop, for the match between two cursors.\<close>

definition match_step :: "pattern \<Rightarrow> string \<Rightarrow> cursor \<Rightarrow> cursor \<Rightarrow> string set \<times> GrammarError list
                           \<Rightarrow> string set \<times> GrammarError list" where
  "match_step pat txt start fin acc =
     (let pf = fst acc; errs = snd acc; ctx = trim (matched start fin) in
      if ctx \<in> pf then (pf, errs)
      else let pf' = insert ctx pf in
        if isHeadingOrTitle ctx then (pf', errs)
        else if pattern_ruleId pat = ''HANGING_PREPOSITION'' \<and> isPrepositionInHeading ctx
          then (pf', errs)
          else (pf', errs @
                 [\<lparr>message = pattern_message pat,
                   context' = ctx,
                   suggestions = [suggestion pat, ''Add proper punctuation''],
                   ruleId = pattern_ruleId pat,
                   position = \<lparr>offset = int (length txt - length (snd start)),
                               length' = length (matched start fin)\<rparr>\<rparr>]))"

text \<open>
  \<^verbatim>\<open>while ((match = pattern.regex.exec(text)) !== null)\<close>: the expression has the
  flag \<^verbatim>\<open>g\<close>, so each search starts at \<^verbatim>\<open>lastIndex\<close>, the end of the match
  before. A match that leaves \<^verbatim>\<open>lastIndex\<close> where it was would be found again for
  ever: the loop does not return, which is \<open>None\<close>.
\<close>

function pattern_loop :: "pattern \<Rightarrow> string \<Rightarrow> cursor \<Rightarrow> string set \<times> GrammarError list
                           \<Rightarrow> (string set \<times> GrammarError list) option" where
  "pattern_loop pat txt cur acc =
     (case rx_search (regex_flags pat) (regex pat) cur of
        None \<Rightarrow> Some acc
      | Some (start, fin) \<Rightarrow>
          if length (snd fin) < length (snd cur)
          then pattern_loop pat txt fin (match_step pat txt start fin acc)
          else None)"
  by pat_completeness auto
termination
  by (relation "measure (\<lambda>(pat, txt, cur, acc). length (snd cur))") auto

declare pattern_loop.simps [simp del]

fun patterns_loop :: "pattern list \<Rightarrow> string \<Rightarrow> string set \<times> GrammarError list
                       \<Rightarrow> (string set \<times> GrammarError list) option" where
  "patterns_loop [] txt acc = Some acc"
| "patterns_loop (pat # rest) txt acc =
     (case pattern_loop pat txt (None, txt) acc of
        None \<Rightarrow> None
      | Some acc' \<Rightarrow> patterns_loop rest txt acc')"

definition checkRegexPatterns :: "GrammarChecker \<Rightarrow> string \<Rightarrow> (GrammarError list \<times> GrammarChecker) option" where
  "checkRegexPatterns this txt =
     (case patterns_loop patterns txt (processedFragments this, []) of
        None \<Rightarrow> None
      | Some acc \<Rightarrow> Some (snd acc, this\<lparr>processedFragments := fst acc\<rparr>))"

section \<open>The check of a page\<close>

definition error_key :: "GrammarError \<Rightarrow> string" where
  "error_key e = trim (context' e) @ ''|'' @ ruleId e"

fun dedup_loop :: "GrammarError list \<Rightarrow> string set \<Rightarrow> GrammarError list \<Rightarrow> GrammarError list" where
  "dedup_loop [] seenContexts uniqueErrors = uniqueErrors"
| "dedup_loop (e # rest) seenContexts uniqueErrors =
     (if error_key e \<notin> seenContexts
      then dedup_loop rest (insert (error_key e) seenContexts) (uniqueErrors @ [e])
      else dedup_loop rest seenContexts uniqueErrors)"

definition deduplicateErrors :: "GrammarError list \<Rightarrow> GrammarError list" where
  "deduplicateErrors errs = dedup_loop errs {} []"

text \<open>
  \<^verbatim>\<open>checkPage\<close>, from the address of the page and the text extracted from it (the
  browser and the extraction are outside). It returns the result and the checker as the
  call leaves it.
\<close>

definition checkPage :: "(string \<Rightarrow> string list) \<Rightarrow> GrammarChecker \<Rightarrow> string \<Rightarrow> string
                          \<Rightarrow> (CheckResult \<times> GrammarChecker) option" where
  "checkPage sentences this page_url txt =
     (let (nlpErrors, this1) = detectIncompleteWithCompromise sentences this txt in
      case checkRegexPatterns this1 txt of
        None \<Rightarrow> None
      | Some (regexErrors, this2) \<Rightarrow>
          let uniqueErrors = deduplicateErrors (nlpErrors @ regexErrors) in
          Some (\<lparr>url = page_url, totalErrors = length uniqueErrors, errors = uniqueErrors,
                 rawText = txt\<rparr>, this2))"

section \<open>Definitions for the proofs\<close>

definition owed :: "nat \<Rightarrow> nat option \<Rightarrow> nat" where
  "owed mn mx = (case mx of None \<Rightarrow> mn | Some m \<Rightarrow> min mn m)"

fun min_len :: "rx \<Rightarrow> nat" where
  "min_len (RLit s) = length s"
| "min_len (RCls P) = 1"
| "min_len (RNotCls P) = 1"
| "min_len RBol = 0"
| "min_len REol = 0"
| "min_len RWordB = 0"
| "min_len (RSeq a b) = min_len a + min_len b"
| "min_len (RAlt a b) = min (min_len a) (min_len b)"
| "min_len (RRep mn mx a) = owed mn mx * min_len a"

definition pattern_rule_ids :: "string list" where
  "pattern_rule_ids = map pattern_ruleId patterns"

definition sentence_fragments :: "string list \<Rightarrow> string set" where
  "sentence_fragments ss = {trim s | s. s \<in> set ss \<and> 10 \<le> length (trim s)}"

text \<open>What every error that a detector pushes satisfies, for the rules \<open>ids\<close> of the detector.\<close>

definition pushed :: "string list \<Rightarrow> GrammarError \<Rightarrow> bool" where
  "pushed ids e = (trim (context' e) = context' e \<and> \<not> isHeadingOrTitle (context' e) \<and> ruleId e \<in> set ids)"

definition run_inv :: "string list \<Rightarrow> string set \<Rightarrow> string set \<times> GrammarError list \<Rightarrow> bool" where
  "run_inv ids pf0 acc =
     (pf0 \<subseteq> fst acc \<and> distinct (map context' (snd acc)) \<and>
      set (map context' (snd acc)) \<subseteq> fst acc - pf0 \<and> list_all (pushed ids) (snd acc))"

definition narrowed :: "string set \<Rightarrow> string set \<times> GrammarError list \<Rightarrow> string set \<times> GrammarError list \<Rightarrow> bool" where
  "narrowed B a b = (fst b = fst a \<union> B \<and> snd b = filter (\<lambda>e. context' e \<notin> B) (snd a))"

definition pattern_error :: "pattern \<Rightarrow> string \<Rightarrow> cursor \<Rightarrow> cursor \<Rightarrow> GrammarError" where
  "pattern_error pat t start fin =
     \<lparr>message = pattern_message pat,
      context' = trim (matched start fin),
      suggestions = [suggestion pat, ''Add proper punctuation''],
      ruleId = pattern_ruleId pat,
      position = \<lparr>offset = int (length t - length (snd start)),
                  length' = length (matched start fin)\<rparr>\<rparr>"

definition context_rule :: "GrammarError \<Rightarrow> string \<times> string" where
  "context_rule e = (trim (context' e), ruleId e)"

definition rule_ids :: "string list" where
  "rule_ids = ''MISSING_END_PUNCTUATION'' # pattern_rule_ids"

text \<open>The options of a caller that sets none.\<close>

definition default_options :: options where
  "default_options = \<lparr>language = None, motherTongue = None, disabledRules = None, detectIncomplete = None\<rparr>"

text \<open>
  \<^verbatim>\<open>text.split(/\n\n+/)\<close>: the pieces between the runs of two line feeds or more.
\<close>

function paragraphs_from :: "string \<Rightarrow> string \<Rightarrow> string list" where
  "paragraphs_from cur [] = [cur]"
| "paragraphs_from cur (c # cs) =
     (if c = CHR 0x0A \<and> cs \<noteq> [] \<and> hd cs = CHR 0x0A
      then cur # paragraphs_from [] (dropWhile (\<lambda>x. x = CHR 0x0A) cs)
      else paragraphs_from (cur @ [c]) cs)"
  by pat_completeness auto

termination
  by (relation "measure (\<lambda>(cur, s). length s)")
     (auto simp: length_dropWhile_le less_Suc_eq_le)

text \<open>
  Modelled from the spec: the sentence splitter. The code takes its sentences from the
  library compromise; section 4.1 of the specification describes the units: the text is
  split at blank lines into paragraphs, paragraphs that are empty after trimming are
  dropped, and each paragraph gives the spans that end in a full stop, an exclamation
  mark or a question mark, and the residue after the last of them as a unit of its own.
  The theorems hold for every splitter; this one gives the units of the examples.
\<close>

fun units_from :: "string \<Rightarrow> string \<Rightarrow> string list" where
  "units_from cur [] = (if cur = [] then [] else [cur])"
| "units_from cur (c # cs) =
     (if c \<in> set ''.!?'' then (cur @ [c]) # units_from [] cs else units_from (cur @ [c]) cs)"

definition segment :: "string \<Rightarrow> string list" where
  "segment t = concat (map (units_from []) (filter (\<lambda>p. trim p \<noteq> []) (paragraphs_from [] t)))"

text \<open>The input of scenario 1 of the specification.\<close>

definition scenario1 :: string where
  "scenario1 = ''Contact Us'' @ [CHR 0x0A, CHR 0x0A] @ ''We appreciate your business. Please visit our site to''"

definition pattern_rule :: "GrammarError \<Rightarrow> bool" where
  "pattern_rule e = (ruleId e \<in> set pattern_rule_ids)"

text \<open>A cursor in a run of white space: white space before it, if anything, and after it.\<close>

definition blank_cursor :: "cursor \<Rightarrow> bool" where
  "blank_cursor cur = ((case fst cur of None \<Rightarrow> True | Some p \<Rightarrow> is_space p) \<and> list_all is_space (snd cur))"

definition ends_with_terminal :: "string \<Rightarrow> bool" where
  "ends_with_terminal x = (x \<noteq> [] \<and> last x \<in> set ''.!?'')"

definition ends_in_colon :: "string \<Rightarrow> bool" where
  "ends_in_colon x = (x \<noteq> [] \<and> last x = CHR '':'')"

definition colon_then_one :: "string \<Rightarrow> bool" where
  "colon_then_one x = (2 \<le> length x \<and> last (butlast x) = CHR '':'' \<and> last x \<noteq> CHR ''.'')"

definition words_of :: "string \<Rightarrow> string list" where
  "words_of txt = filter (\<lambda>word. length word > 0) (split_space [] txt)"

definition has_code_word :: "string \<Rightarrow> bool" where
  "has_code_word txt = list_ex (\<lambda>word. str_includes (toLowerCase txt) word) codeWords"

definition special_count :: "string \<Rightarrow> nat" where
  "special_count txt = length (filter is_special_char txt)"

text \<open>
  \<^verbatim>\<open>analyzeText\<close> of sentenceAnalyzer.ts. The file holds this one method of a class;
  the members it uses and does not define are the fields of the record below. A pattern
  of \<^verbatim>\<open>ignorePatterns\<close> or \<^verbatim>\<open>incompletePatterns\<close> is taken by what its
  \<^verbatim>\<open>test\<close> answers.
\<close>

record analyzer =
  isCookieConsent :: "string \<Rightarrow> bool"
  ignorePatterns :: "(string \<Rightarrow> bool) list"
  looksLikeCodeOrCSS :: "string \<Rightarrow> bool"
  looksLikeNavigation :: "string \<Rightarrow> bool"
  extractSentences :: "string \<Rightarrow> string list"
  isLikelyUIElement :: "string \<Rightarrow> bool"
  isLikelySentence :: "string \<Rightarrow> bool"
  incompletePatterns :: "(string \<Rightarrow> bool) list"

definition rx_five_letters :: rx where
  "rx_five_letters = RRep 5 None (RCls is_letter)"

definition rx_negated_verb :: rx where
  "rx_negated_verb =
     seqs [RWordB, lits [''do not'', ''does not'', ''cannot'', ''will not''], RWordB, Many dot, RWordB,
           lits [''recognize'', ''respond'', ''reply'', ''acknowledge''], RWordB]"

definition rx_ends_with_verb :: rx where
  "rx_ends_with_verb =
     seqs [RWordB,
           lits [''initiated'', ''completed'', ''started'', ''begun'', ''processed'', ''respond'',
                 ''recognize''],
           Many sp, REol]"

definition rx_please_note :: rx where
  "rx_please_note = seqs [RBol, lits [''please'', ''kindly''], Many1 sp, RLit ''note'', RWordB]"

definition rx_ends_with_preposition :: rx where
  "rx_ends_with_preposition =
     seqs [RWordB,
           lits [''to'', ''for'', ''with'', ''by'', ''from'', ''in'', ''on'', ''at'', ''about'', ''upon''],
           Many sp, REol]"

definition choose_suggestion :: "string \<Rightarrow> string" where
  "choose_suggestion trimmedSentence =
     (if rx_test flag_i rx_negated_verb trimmedSentence
        then ''Complete the sentence by specifying what is recognized or responded to''
      else if rx_test flag_i rx_ends_with_verb trimmedSentence
        then ''Complete the sentence by adding an object''
      else if rx_test flag_i rx_please_note trimmedSentence
        then ''Complete the sentence after noting important information''
      else if rx_test flag_i rx_ends_with_preposition trimmedSentence
        then ''Add the object of the preposition''
      else ''Complete the sentence with a main clause'')"

text \<open>\<^verbatim>\<open>Set.add\<close> on a set kept in the order of insertion.\<close>

definition set_add :: "string list \<Rightarrow> string \<Rightarrow> string list" where
  "set_add fragments s = (if s \<in> set fragments then fragments else fragments @ [s])"

text \<open>The body of the loop over the sentences of a paragraph.\<close>

definition analyze_sentence :: "analyzer \<Rightarrow> string \<Rightarrow> string list \<times> GrammarError list \<Rightarrow> string
                                 \<Rightarrow> string list \<times> GrammarError list" where
  "analyze_sentence a paragraph acc sentence =
     (let reportedFragments = fst acc; errs = snd acc; trimmedSentence = trim sentence in
      if trimmedSentence = [] \<or> length trimmedSentence < 10 then acc
      else if isCookieConsent a trimmedSentence then acc
      else if list_ex (\<lambda>pattern. pattern trimmedSentence) (ignorePatterns a) then acc
      else if looksLikeCodeOrCSS a trimmedSentence then acc
      else if looksLikeNavigation a trimmedSentence then acc
      else if isLikelyUIElement a trimmedSentence then acc
      else if list_ex (\<lambda>fragment. str_includes trimmedSentence fragment
                                   \<or> str_includes fragment trimmedSentence) reportedFragments
        then acc
      else if \<not> rx_test no_flags rx_end_punct trimmedSentence
              \<and> rx_test no_flags rx_five_letters trimmedSentence
        then (if isLikelySentence a trimmedSentence
              then (set_add reportedFragments trimmedSentence,
                    errs @
                    [\<lparr>message = ''Sentence does not end with proper punctuation'',
                      context' = trimmedSentence,
                      suggestions = [''Add appropriate ending punctuation (period, exclamation mark, or question mark)''],
                      ruleId = ''MISSING_END_PUNCTUATION'',
                      position = \<lparr>offset = indexOf paragraph trimmedSentence,
                                  length' = length trimmedSentence\<rparr>\<rparr>])
              else acc)
      else if list_ex (\<lambda>pattern. pattern trimmedSentence) (incompletePatterns a)
        then (if isLikelySentence a trimmedSentence
              then (set_add reportedFragments trimmedSentence,
                    errs @
                    [\<lparr>message = ''Possible incomplete sentence or sentence fragment'',
                      context' = trimmedSentence,
                      suggestions = [choose_suggestion trimmedSentence, ''Add proper punctuation''],
                      ruleId = ''POSSIBLE_INCOMPLETE_SENTENCE'',
                      position = \<lparr>offset = indexOf paragraph trimmedSentence,
                                  length' = length trimmedSentence\<rparr>\<rparr>])
              else acc)
      else acc)"

fun sentences_loop :: "analyzer \<Rightarrow> string \<Rightarrow> string list \<Rightarrow> string list \<times> GrammarError list
                        \<Rightarrow> string list \<times> GrammarError list" where
  "sentences_loop a paragraph [] acc = acc"
| "sentences_loop a paragraph (sentence # rest) acc =
     sentences_loop a paragraph rest (analyze_sentence a paragraph acc sentence)"

text \<open>The body of the loop over the paragraphs.\<close>

definition analyze_paragraph :: "analyzer \<Rightarrow> string list \<times> GrammarError list \<Rightarrow> string
                                  \<Rightarrow> string list \<times> GrammarError list" where
  "analyze_paragraph a acc paragraph =
     (if trim paragraph = [] then acc
      else if isCookieConsent a paragraph then acc
      else if list_ex (\<lambda>pattern. pattern (trim paragraph)) (ignorePatterns a) then acc
      else if looksLikeCodeOrCSS a paragraph then acc
      else if looksLikeNavigation a paragraph then acc
      else if list_ex (\<lambda>fragment. str_includes paragraph fragment) (fst acc) then acc
      else sentences_loop a paragraph (extractSentences a paragraph) acc)"

fun paragraphs_loop :: "analyzer \<Rightarrow> string list \<Rightarrow> string list \<times> GrammarError list
                         \<Rightarrow> string list \<times> GrammarError list" where
  "paragraphs_loop a [] acc = acc"
| "paragraphs_loop a (paragraph # rest) acc = paragraphs_loop a rest (analyze_paragraph a acc paragraph)"

definition analyzeText :: "analyzer \<Rightarrow> string \<Rightarrow> GrammarError list" where
  "analyzeText a txt = snd (paragraphs_loop a (paragraphs_from [] txt) ([], []))"

text \<open>No string of the list contains another one of it, or equals it.\<close>

fun no_overlap :: "string list \<Rightarrow> bool" where
  "no_overlap [] = True"
| "no_overlap (x # xs) =
     (list_all (\<lambda>y. \<not> str_includes x y \<and> \<not> str_includes y x) xs \<and> no_overlap xs)"

text \<open>The text of the counterexample to the containment of fragments across detectors.\<close>

definition nested_text :: string where
  "nested_text = ''then we said that It will be sent to''"

definition analyzer_inv :: "string list \<times> GrammarError list \<Rightarrow> bool" where
  "analyzer_inv acc = (fst acc = map context' (snd acc) \<and> no_overlap (fst acc))"

text \<open>
  Two consecutive calls of \<^verbatim>\<open>checkPage\<close> on one checker, as a caller that keeps
  the instance makes them: the errors of the first and of the second call.
\<close>

definition check_twice :: "(string \<Rightarrow> string list) \<Rightarrow> GrammarChecker \<Rightarrow> string \<Rightarrow> string
                            \<Rightarrow> (GrammarError list \<times> GrammarError list) option" where
  "check_twice sentences chk page_url txt =
     (case checkPage sentences chk page_url txt of
        None \<Rightarrow> None
      | Some (r1, chk1) \<Rightarrow>
          (case checkPage sentences chk1 page_url txt of
             None \<Rightarrow> None
           | Some (r2, chk2) \<Rightarrow> Some (errors r1, errors r2)))"

text \<open>
  A text of white space only, and a sentence without terminal punctuation whose last code
  unit but one is a colon.
\<close>

definition blank_text :: string where
  "blank_text = [CHR 0x20, CHR 0x0A, CHR 0x0A, CHR 0x09, CHR 0x20]"

definition score_line :: string where
  "score_line = ''We will score the game 2:1''"

text \<open>
  Following the specification (section 4.3): the content test as the specification words
  it, where the unit \<open>does not end in a colon\<close>.
\<close>

definition spec_content_test :: "string \<Rightarrow> bool" where
  "spec_content_test s =
     (15 \<le> length s \<and> 4 \<le> length (words_of s) \<and> \<not> ends_in_colon (trim s) \<and>
      (rx_test flag_i rx_subject_verb s \<or>
       (7 \<le> length (words_of s) \<and> 20 * special_count s < length s \<and> \<not> has_code_word s)))"

text \<open>
  An analyzer that filters nothing: no pattern and no predicate refuses a sentence, every
  sentence is likely, and the sentences of a paragraph are the units of the splitter.
\<close>

definition plain_analyzer :: analyzer where
  "plain_analyzer =
     \<lparr>isCookieConsent = (\<lambda>s. False), ignorePatterns = [], looksLikeCodeOrCSS = (\<lambda>s. False),
      looksLikeNavigation = (\<lambda>s. False), extractSentences = units_from [],
      isLikelyUIElement = (\<lambda>s. False), isLikelySentence = (\<lambda>s. True),
      incompletePatterns = []\<rparr>"

definition two_paragraphs :: string where
  "two_paragraphs = ''We went to the market today'' @ [CHR 0x0A, CHR 0x0A] @ ''to the market''"

section \<open>Lemmas and theorems\<close>

lemma lit_consumes:
  "lit ic s cur = Some cur' \<Longrightarrow> length (snd cur') + length s = length (snd cur)"
proof (induction ic s cur rule: lit.induct)
  case (3 ic c cs p d ds)
  then show ?case by (auto split: if_splits)
qed auto

lemma owed_step:
  "mn \<noteq> 0 \<Longrightarrow> mx \<noteq> Some 0 \<Longrightarrow>
   owed mn mx = Suc (owed (mn - 1) (map_option (\<lambda>n. n - 1) mx))"
  by (cases mx) (auto simp: owed_def min_def)

lemma rep_consumes:
  assumes m: "\<And>cur k e. m cur k = Some e \<Longrightarrow> \<exists>cur'. k cur' = Some e \<and> length (snd cur') + n \<le> length (snd cur)"
  shows "rep m fuel mn mx cur k = Some e \<Longrightarrow>
         \<exists>cur'. k cur' = Some e \<and> length (snd cur') + owed mn mx * n \<le> length (snd cur)"
proof (induction fuel arbitrary: mn mx cur)
  case 0
  then have "k cur = Some e" "mn = 0" by (auto split: if_splits)
  then have "k cur = Some e \<and> length (snd cur) + owed mn mx * n \<le> length (snd cur)"
    by (simp add: owed_def split: option.splits)
  then show ?case by blast
next
  case (Suc fuel)
  show ?case
  proof (cases "mx = Some 0")
    case True
    with Suc.prems have "k cur = Some e" by simp
    with True have "k cur = Some e \<and> length (snd cur) + owed mn mx * n \<le> length (snd cur)"
      by (simp add: owed_def)
    then show ?thesis by blast
  next
    case nz: False
    show ?thesis
    proof (cases "mn = 0")
      case False
      let ?d = "\<lambda>cur'. rep m fuel (mn - 1) (map_option (\<lambda>n. n - 1) mx) cur' k"
      from Suc.prems nz False have "m cur ?d = Some e" by simp
      from m[OF this] obtain c1 where c1: "?d c1 = Some e" "length (snd c1) + n \<le> length (snd cur)"
        by blast
      from Suc.IH[OF c1(1)] obtain c2 where
        c2: "k c2 = Some e"
            "length (snd c2) + owed (mn - 1) (map_option (\<lambda>n. n - 1) mx) * n \<le> length (snd c1)"
        by blast
      from c1(2) c2(2) have "length (snd c2) + owed mn mx * n \<le> length (snd cur)"
        by (simp add: owed_step[OF False nz])
      with c2(1) show ?thesis by blast
    next
      case True
      let ?d = "\<lambda>cur'. if length (snd cur') = length (snd cur) then None
                       else rep m fuel 0 (map_option (\<lambda>n. n - 1) mx) cur' k"
      have ow: "owed mn mx = 0" using True by (simp add: owed_def split: option.splits)
      show ?thesis
      proof (cases "m cur ?d")
        case None
        with Suc.prems nz True have "k cur = Some e" by simp
        with ow have "k cur = Some e \<and> length (snd cur) + owed mn mx * n \<le> length (snd cur)"
          by simp
        then show ?thesis by blast
      next
        case (Some r)
        with Suc.prems nz True have r: "m cur ?d = Some e" by simp
        from m[OF r] obtain c1 where c1: "?d c1 = Some e" "length (snd c1) + n \<le> length (snd cur)"
          by blast
        from c1(1) have "rep m fuel 0 (map_option (\<lambda>n. n - 1) mx) c1 k = Some e"
          by (auto split: if_splits)
        from Suc.IH[OF this] obtain c2 where
          c2: "k c2 = Some e" "length (snd c2) \<le> length (snd c1)"
          by auto
        with c1(2) ow have "k c2 = Some e \<and> length (snd c2) + owed mn mx * n \<le> length (snd cur)"
          by simp
        then show ?thesis by blast
      qed
    qed
  qed
qed

lemma bt_consumes:
  "bt r fl cur k = Some e \<Longrightarrow>
   \<exists>cur'. k cur' = Some e \<and> length (snd cur') + min_len r \<le> length (snd cur)"
proof (induction r arbitrary: cur k e)
  case (RLit s)
  then obtain c1 where c1: "lit (ignoreCase fl) s cur = Some c1" "k c1 = Some e"
    by (auto split: option.splits)
  from lit_consumes[OF c1(1)] c1(2)
  have "k c1 = Some e \<and> length (snd c1) + min_len (RLit s) \<le> length (snd cur)" by simp
  then show ?case by blast
next
  case (RCls P)
  then obtain c cs where "snd cur = c # cs" "k (Some c, cs) = Some e"
    by (auto split: list.splits if_splits)
  then have "k (Some c, cs) = Some e \<and> length (snd (Some c, cs)) + min_len (RCls P) \<le> length (snd cur)"
    by simp
  then show ?case by blast
next
  case (RNotCls P)
  then obtain c cs where "snd cur = c # cs" "k (Some c, cs) = Some e"
    by (auto split: list.splits if_splits)
  then have "k (Some c, cs) = Some e \<and> length (snd (Some c, cs)) + min_len (RNotCls P) \<le> length (snd cur)"
    by simp
  then show ?case by blast
next
  case (RSeq a b)
  from RSeq.prems have "bt a fl cur (\<lambda>cur'. bt b fl cur' k) = Some e" by simp
  from RSeq.IH(1)[OF this] obtain c1 where
    c1: "bt b fl c1 k = Some e" "length (snd c1) + min_len a \<le> length (snd cur)" by blast
  from RSeq.IH(2)[OF c1(1)] obtain c2 where
    c2: "k c2 = Some e" "length (snd c2) + min_len b \<le> length (snd c1)" by blast
  with c1(2) have "k c2 = Some e \<and> length (snd c2) + min_len (RSeq a b) \<le> length (snd cur)"
    by simp
  then show ?case by blast
next
  case (RAlt a b)
  show ?case
  proof (cases "bt a fl cur k")
    case None
    with RAlt.prems have "bt b fl cur k = Some e" by simp
    from RAlt.IH(2)[OF this] obtain c2 where
      "k c2 = Some e" "length (snd c2) + min_len b \<le> length (snd cur)" by blast
    then have "k c2 = Some e \<and> length (snd c2) + min_len (RAlt a b) \<le> length (snd cur)"
      by simp
    then show ?thesis by blast
  next
    case (Some r)
    with RAlt.prems have "bt a fl cur k = Some e" by simp
    from RAlt.IH(1)[OF this] obtain c2 where
      "k c2 = Some e" "length (snd c2) + min_len a \<le> length (snd cur)" by blast
    then have "k c2 = Some e \<and> length (snd c2) + min_len (RAlt a b) \<le> length (snd cur)"
      by simp
    then show ?thesis by blast
  qed
next
  case (RRep mn mx a)
  from RRep.prems have "rep (bt a fl) (mn + length (snd cur)) mn mx cur k = Some e" by simp
  from rep_consumes[where m = "bt a fl" and n = "min_len a", OF RRep.IH this]
  show ?case by simp
next
  case RBol
  then have "k cur = Some e \<and> length (snd cur) + min_len RBol \<le> length (snd cur)"
    by (simp split: if_splits)
  then show ?case by blast
next
  case REol
  then have "k cur = Some e \<and> length (snd cur) + min_len REol \<le> length (snd cur)"
    by (simp split: if_splits)
  then show ?case by blast
next
  case RWordB
  then have "k cur = Some e \<and> length (snd cur) + min_len RWordB \<le> length (snd cur)"
    by (simp split: if_splits)
  then show ?case by blast
qed

lemma rx_search_bounds:
  "rx_search fl r cur = Some (start, fin) \<Longrightarrow>
   length (snd fin) + min_len r \<le> length (snd start) \<and> length (snd start) \<le> length (snd cur)"
proof (induction fl r cur rule: rx_search.induct)
  case (1 fl r p s)
  show ?case
  proof (cases "bt r fl (p, s) Some")
    case (Some e)
    with "1.prems" have eq: "start = (p, s)" "fin = e" by (auto simp: rx_search.simps[of fl r p s])
    from bt_consumes[OF Some] eq show ?thesis by auto
  next
    case None
    with "1.prems" obtain c cs where s: "s = c # cs" and
      rec: "rx_search fl r (Some c, cs) = Some (start, fin)"
      by (auto simp: rx_search.simps[of fl r p s] split: list.splits)
    from "1.IH"[OF None s rec] s show ?thesis by auto
  qed
qed

lemma pattern_loop_rel:
  "(\<And>start fin a b. R a b \<Longrightarrow> R (match_step pat t start fin a) (match_step pat t start fin b)) \<Longrightarrow>
   R acc1 acc2 \<Longrightarrow> pattern_loop pat t cur acc1 = Some r1 \<Longrightarrow>
   \<exists>r2. pattern_loop pat t cur acc2 = Some r2 \<and> R r1 r2"
proof (induction pat t cur acc1 arbitrary: acc2 rule: pattern_loop.induct)
  case (1 pat t cur acc)
  show ?case
  proof (cases "rx_search (regex_flags pat) (regex pat) cur")
    case None
    with "1.prems"(2,3) show ?thesis
      by (simp add: pattern_loop.simps[of pat t cur])
  next
    case (Some m)
    obtain start fin where m: "m = (start, fin)" by (cases m)
    show ?thesis
    proof (cases "length (snd fin) < length (snd cur)")
      case True
      with Some m "1.prems"(3) have rec:
        "pattern_loop pat t fin (match_step pat t start fin acc) = Some r1"
        by (simp add: pattern_loop.simps[of pat t cur])
      have "R (match_step pat t start fin acc) (match_step pat t start fin acc2)"
        using "1.prems"(1) "1.prems"(2) by blast
      from "1.IH"[OF Some m[symmetric] True "1.prems"(1) this rec]
      show ?thesis using Some m True by (simp add: pattern_loop.simps[of pat t cur])
    next
      case False
      with Some m "1.prems"(3) show ?thesis by (simp add: pattern_loop.simps[of pat t cur])
    qed
  qed
qed

lemma pattern_loop_total:
  assumes "0 < min_len (regex pat)"
  shows "\<exists>r. pattern_loop pat t cur acc = Some r"
  using assms
proof (induction pat t cur acc rule: pattern_loop.induct)
  case (1 pat t cur acc)
  show ?case
  proof (cases "rx_search (regex_flags pat) (regex pat) cur")
    case None
    then show ?thesis by (simp add: pattern_loop.simps[of pat t cur])
  next
    case (Some m)
    obtain start fin where m: "m = (start, fin)" by (cases m)
    from rx_search_bounds[OF Some[unfolded m]] "1.prems"
    have lt: "length (snd fin) < length (snd cur)" by simp
    from "1.IH"[OF Some m[symmetric] lt "1.prems"] Some m lt
    show ?thesis by (simp add: pattern_loop.simps[of pat t cur])
  qed
qed

lemma lit_fail: "lit ic s cur = Some c \<Longrightarrow> length (snd c) \<le> length (snd cur)"
  using lit_consumes[of ic s cur c] by simp

lemma rep_cong_le:
  assumes m: "\<And>cur k k'. (\<And>c. length (snd c) \<le> length (snd cur) \<Longrightarrow> k c = k' c) \<Longrightarrow> m cur k = m cur k'"
  shows "(\<And>c. length (snd c) \<le> length (snd cur) \<Longrightarrow> k c = k' c) \<Longrightarrow>
         rep m fuel mn mx cur k = rep m fuel mn mx cur k'"
proof (induction fuel arbitrary: mn mx cur)
  case 0
  then show ?case by simp
next
  case (Suc fuel)
  have a: "m cur (\<lambda>cur'. rep m fuel (mn - 1) (map_option (\<lambda>n. n - 1) mx) cur' k) =
           m cur (\<lambda>cur'. rep m fuel (mn - 1) (map_option (\<lambda>n. n - 1) mx) cur' k')"
    by (rule m) (rule Suc.IH, rule Suc.prems, simp)
  have b: "m cur (\<lambda>cur'. if length (snd cur') = length (snd cur) then None
                          else rep m fuel 0 (map_option (\<lambda>n. n - 1) mx) cur' k) =
           m cur (\<lambda>cur'. if length (snd cur') = length (snd cur) then None
                          else rep m fuel 0 (map_option (\<lambda>n. n - 1) mx) cur' k')"
  proof (rule m)
    fix c :: cursor assume c: "length (snd c) \<le> length (snd cur)"
    have "rep m fuel 0 (map_option (\<lambda>n. n - 1) mx) c k = rep m fuel 0 (map_option (\<lambda>n. n - 1) mx) c k'"
      by (rule Suc.IH, rule Suc.prems) (use c in simp)
    then show "(if length (snd c) = length (snd cur) then None
                else rep m fuel 0 (map_option (\<lambda>n. n - 1) mx) c k) =
               (if length (snd c) = length (snd cur) then None
                else rep m fuel 0 (map_option (\<lambda>n. n - 1) mx) c k')" by simp
  qed
  have k: "k cur = k' cur" by (rule Suc.prems) simp
  show ?case using a b k by (simp split: option.splits)
qed

lemma bt_cong_le:
  "(\<And>c. length (snd c) \<le> length (snd cur) \<Longrightarrow> k c = k' c) \<Longrightarrow> bt r fl cur k = bt r fl cur k'"
proof (induction r arbitrary: cur k k')
  case (RLit s)
  show ?case
  proof (cases "lit (ignoreCase fl) s cur")
    case None
    then show ?thesis by simp
  next
    case (Some c)
    from RLit[OF lit_fail[OF Some]] Some show ?thesis by simp
  qed
next
  case (RCls P)
  then show ?case by (cases cur) (auto split: list.splits)
next
  case (RNotCls P)
  then show ?case by (cases cur) (auto split: list.splits)
next
  case (RSeq a b)
  have "bt a fl cur (\<lambda>c. bt b fl c k) = bt a fl cur (\<lambda>c. bt b fl c k')"
  proof (rule RSeq.IH(1))
    fix c :: cursor assume c: "length (snd c) \<le> length (snd cur)"
    show "bt b fl c k = bt b fl c k'"
      by (rule RSeq.IH(2), rule RSeq.prems) (use c in simp)
  qed
  then show ?case by simp
next
  case (RAlt a b)
  have "bt a fl cur k = bt a fl cur k'" by (rule RAlt.IH(1)) (rule RAlt.prems)
  moreover have "bt b fl cur k = bt b fl cur k'" by (rule RAlt.IH(2)) (rule RAlt.prems)
  ultimately show ?case by (simp split: option.splits)
next
  case (RRep mn mx a)
  have "rep (bt a fl) (mn + length (snd cur)) mn mx cur k =
        rep (bt a fl) (mn + length (snd cur)) mn mx cur k'"
    by (rule rep_cong_le[OF RRep.IH RRep.prems])
  then show ?case by simp
qed (simp_all)

lemma rep_fuel:
  assumes m: "\<And>cur k k'. (\<And>c. length (snd c) \<le> length (snd cur) \<Longrightarrow> k c = k' c) \<Longrightarrow> m cur k = m cur k'"
    and f: "\<And>cur. m cur (\<lambda>c. None) = None"
  shows "mn + length (snd cur) \<le> fuel \<Longrightarrow> rep m (Suc fuel) mn mx cur k = rep m fuel mn mx cur k"
proof (induction fuel arbitrary: mn mx cur k)
  case 0
  then have z: "mn = 0" "length (snd cur) = 0" by simp_all
  have "m cur (\<lambda>cur'. if length (snd cur') = length (snd cur) then None
                       else rep m 0 0 (map_option (\<lambda>n. n - 1) mx) cur' k) = m cur (\<lambda>c. None)"
    by (rule m) (use z in simp)
  then have "m cur (\<lambda>cur'. if length (snd cur') = length (snd cur) then None
                       else rep m 0 0 (map_option (\<lambda>n. n - 1) mx) cur' k) = None"
    using f by simp
  then show ?case using z by simp
next
  case (Suc fuel)
  let ?mx = "map_option (\<lambda>n. n - 1) mx"
  have a: "mn \<noteq> 0 \<Longrightarrow>
           m cur (\<lambda>cur'. rep m (Suc fuel) (mn - 1) ?mx cur' k) =
           m cur (\<lambda>cur'. rep m fuel (mn - 1) ?mx cur' k)"
  proof (rule m)
    fix c :: cursor assume "mn \<noteq> 0" and c: "length (snd c) \<le> length (snd cur)"
    with Suc.prems have "mn - 1 + length (snd c) \<le> fuel" by simp
    then show "rep m (Suc fuel) (mn - 1) ?mx c k = rep m fuel (mn - 1) ?mx c k" by (rule Suc.IH)
  qed
  have b: "m cur (\<lambda>cur'. if length (snd cur') = length (snd cur) then None
                          else rep m (Suc fuel) 0 ?mx cur' k) =
           m cur (\<lambda>cur'. if length (snd cur') = length (snd cur) then None
                          else rep m fuel 0 ?mx cur' k)"
  proof (rule m)
    fix c :: cursor assume c: "length (snd c) \<le> length (snd cur)"
    show "(if length (snd c) = length (snd cur) then None else rep m (Suc fuel) 0 ?mx c k) =
          (if length (snd c) = length (snd cur) then None else rep m fuel 0 ?mx c k)"
    proof (cases "length (snd c) = length (snd cur)")
      case True
      then show ?thesis by simp
    next
      case False
      with c Suc.prems have "0 + length (snd c) \<le> fuel" by simp
      from Suc.IH[OF this] False show ?thesis by (simp del: rep.simps)
    qed
  qed
  have L: "rep m (Suc (Suc fuel)) mn mx cur k =
     (if mx = Some 0 then k cur
      else if mn \<noteq> 0
        then m cur (\<lambda>cur'. rep m (Suc fuel) (mn - 1) ?mx cur' k)
        else (case m cur (\<lambda>cur'. if length (snd cur') = length (snd cur) then None
                                   else rep m (Suc fuel) 0 ?mx cur' k) of
                Some r \<Rightarrow> Some r
              | None \<Rightarrow> k cur))"
    by (rule rep.simps(2))
  have R: "rep m (Suc fuel) mn mx cur k =
     (if mx = Some 0 then k cur
      else if mn \<noteq> 0
        then m cur (\<lambda>cur'. rep m fuel (mn - 1) ?mx cur' k)
        else (case m cur (\<lambda>cur'. if length (snd cur') = length (snd cur) then None
                                   else rep m fuel 0 ?mx cur' k) of
                Some r \<Rightarrow> Some r
              | None \<Rightarrow> k cur))"
    by (rule rep.simps(2))
  show ?case
  proof (cases "mn = 0")
    case True
    show ?thesis unfolding L R b using True by (simp only: if_False if_True simp_thms)
  next
    case False
    show ?thesis unfolding L R a[OF False] using False by (simp only: if_False if_True simp_thms)
  qed
qed

lemma rep_fail:
  assumes f: "\<And>cur k. (\<And>c. k c = None) \<Longrightarrow> m cur k = None"
  shows "rep m fuel mn mx cur (\<lambda>c. None) = None"
proof (induction fuel arbitrary: mn mx cur)
  case 0
  show ?case by simp
next
  case (Suc fuel)
  have a: "m cur (\<lambda>cur'. rep m fuel (mn - 1) (map_option (\<lambda>n. n - 1) mx) cur' (\<lambda>c. None)) = None"
    by (rule f) (rule Suc.IH)
  have b: "m cur (\<lambda>cur'. if length (snd cur') = length (snd cur) then None
                          else rep m fuel 0 (map_option (\<lambda>n. n - 1) mx) cur' (\<lambda>c. None)) = None"
    by (rule f) (simp add: Suc.IH)
  show ?case using a b by (simp split: option.splits)
qed

lemma bt_fail: "(\<And>c. k c = None) \<Longrightarrow> bt r fl cur k = None"
proof (induction r arbitrary: cur k)
  case (RSeq a b)
  have "bt a fl cur (\<lambda>c. bt b fl c k) = None"
    by (rule RSeq.IH(1)) (rule RSeq.IH(2), rule RSeq.prems)
  then show ?case by simp
next
  case (RAlt a b)
  from RAlt.IH(1)[OF RAlt.prems] RAlt.IH(2)[OF RAlt.prems] show ?case by simp
next
  case (RRep mn mx a)
  have "k = (\<lambda>c. None)" using RRep.prems by (intro ext) simp
  moreover have "rep (bt a fl) (mn + length (snd cur)) mn mx cur (\<lambda>c. None) = None"
    by (rule rep_fail) (rule RRep.IH)
  ultimately show ?case by simp
qed (auto split: option.splits list.splits)

lemma rep_more_fuel:
  "mn + length (snd cur) \<le> fuel \<Longrightarrow>
   rep (bt a fl) (fuel + n) mn mx cur k = rep (bt a fl) fuel mn mx cur k"
proof (induction n)
  case 0
  then show ?case by simp
next
  case (Suc n)
  have "rep (bt a fl) (Suc (fuel + n)) mn mx cur k = rep (bt a fl) (fuel + n) mn mx cur k"
    by (rule rep_fuel[where m = "bt a fl"]) (use Suc.prems in \<open>auto intro: bt_cong_le bt_fail\<close>)
  with Suc show ?case by simp
qed

text \<open>The repeat matcher never runs out of fuel: more fuel gives the same result.\<close>

lemma repeat_fuel_is_enough:
  "bt (RRep mn mx a) fl cur k = rep (bt a fl) (mn + length (snd cur) + n) mn mx cur k"
  using rep_more_fuel[of mn cur "mn + length (snd cur)" a fl n mx k] by simp

lemma lower_partner:
  assumes "is_lower c \<or> c \<in> set latin1_lower_chars"
  shows "(is_upper (set_bit_32 False c) \<or> set_bit_32 False c \<in> set latin1_upper_chars) \<and>
   set_bit_32 True (set_bit_32 False c) = c \<and>
   \<not> (is_upper c \<or> c \<in> set latin1_upper_chars)"
proof -
  have "list_all (\<lambda>c. (is_upper (set_bit_32 False c) \<or> set_bit_32 False c \<in> set latin1_upper_chars) \<and>
           set_bit_32 True (set_bit_32 False c) = c \<and>
           \<not> (is_upper c \<or> c \<in> set latin1_upper_chars)) (lower_chars @ latin1_lower_chars)"
    by code_simp
  moreover from assms have "c \<in> set (lower_chars @ latin1_lower_chars)"
    by (auto simp: is_lower_def)
  ultimately show ?thesis unfolding list_all_iff by blast
qed

lemma upper_partner:
  assumes "is_upper c \<or> c \<in> set latin1_upper_chars"
  shows "(is_lower (set_bit_32 True c) \<or> set_bit_32 True c \<in> set latin1_lower_chars) \<and>
   set_bit_32 False (set_bit_32 True c) = c \<and>
   \<not> (is_lower c \<or> c \<in> set latin1_lower_chars)"
proof -
  have "list_all (\<lambda>c. (is_lower (set_bit_32 True c) \<or> set_bit_32 True c \<in> set latin1_lower_chars) \<and>
           set_bit_32 False (set_bit_32 True c) = c \<and>
           \<not> (is_lower c \<or> c \<in> set latin1_lower_chars)) (upper_chars @ latin1_upper_chars)"
    by code_simp
  moreover from assms have "c \<in> set (upper_chars @ latin1_upper_chars)"
    by (auto simp: is_upper_def)
  ultimately show ?thesis unfolding list_all_iff by blast
qed

lemma canonicalize_low:
  "is_lower c \<or> c \<in> set latin1_lower_chars \<Longrightarrow> canonicalize c = set_bit_32 False c"
  by (simp add: canonicalize_def)

lemma canonicalize_other:
  "\<not> (is_lower c \<or> c \<in> set latin1_lower_chars) \<Longrightarrow> canonicalize c = c"
  by (simp add: canonicalize_def)

lemma toLowerCase_up:
  "is_upper c \<or> c \<in> set latin1_upper_chars \<Longrightarrow> toLowerCase_char c = set_bit_32 True c"
  by (simp add: toLowerCase_char_def)

lemma toLowerCase_other:
  "\<not> (is_upper c \<or> c \<in> set latin1_upper_chars) \<Longrightarrow> toLowerCase_char c = c"
  by (simp add: toLowerCase_char_def)

lemma canonicalize_idem: "canonicalize (canonicalize d) = canonicalize d"
proof (cases "is_lower d \<or> d \<in> set latin1_lower_chars")
  case True
  from lower_partner[OF True]
  have u: "is_upper (set_bit_32 False d) \<or> set_bit_32 False d \<in> set latin1_upper_chars" by blast
  from upper_partner[OF u]
  have "\<not> (is_lower (set_bit_32 False d) \<or> set_bit_32 False d \<in> set latin1_lower_chars)"
    by blast
  from canonicalize_other[OF this] show ?thesis
    by (simp only: canonicalize_low[OF True])
next
  case False
  show ?thesis by (simp only: canonicalize_other[OF False])
qed

lemma canonicalize_lower: "canonicalize (toLowerCase_char d) = canonicalize d"
proof (cases "is_upper d \<or> d \<in> set latin1_upper_chars")
  case True
  from upper_partner[OF True]
  have l: "is_lower (set_bit_32 True d) \<or> set_bit_32 True d \<in> set latin1_lower_chars"
    and r: "set_bit_32 False (set_bit_32 True d) = d"
    and n: "\<not> (is_lower d \<or> d \<in> set latin1_lower_chars)" by blast+
  have "canonicalize (toLowerCase_char d) = canonicalize (set_bit_32 True d)"
    by (simp only: toLowerCase_up[OF True])
  also have "\<dots> = set_bit_32 False (set_bit_32 True d)" by (rule canonicalize_low[OF l])
  also have "\<dots> = d" by (rule r)
  also have "d = canonicalize d" by (rule canonicalize_other[OF n, symmetric])
  finally show ?thesis .
next
  case False
  show ?thesis by (simp only: toLowerCase_other[OF False])
qed

lemma canonicalize_eq_iff:
  "canonicalize a = canonicalize d \<longleftrightarrow> a = d \<or> a = canonicalize d \<or> a = toLowerCase_char d"
proof
  assume "a = d \<or> a = canonicalize d \<or> a = toLowerCase_char d"
  then show "canonicalize a = canonicalize d"
  proof (elim disjE)
    assume "a = d" then show ?thesis by (simp only:)
  next
    assume "a = canonicalize d" then show ?thesis by (simp only: canonicalize_idem)
  next
    assume "a = toLowerCase_char d" then show ?thesis by (simp only: canonicalize_lower)
  qed
next
  assume eq: "canonicalize a = canonicalize d"
  show "a = d \<or> a = canonicalize d \<or> a = toLowerCase_char d"
  proof (cases "is_lower a \<or> a \<in> set latin1_lower_chars")
    case a: True
    from lower_partner[OF a]
    have ua: "is_upper (set_bit_32 False a) \<or> set_bit_32 False a \<in> set latin1_upper_chars"
      and ra: "set_bit_32 True (set_bit_32 False a) = a" by blast+
    show ?thesis
    proof (cases "is_lower d \<or> d \<in> set latin1_lower_chars")
      case d: True
      from lower_partner[OF d] have rd: "set_bit_32 True (set_bit_32 False d) = d" by blast
      from eq have "set_bit_32 False a = set_bit_32 False d"
        by (simp only: canonicalize_low[OF a] canonicalize_low[OF d])
      then have "set_bit_32 True (set_bit_32 False a) = set_bit_32 True (set_bit_32 False d)"
        by (rule arg_cong)
      then have "a = d" by (simp only: ra rd)
      then show ?thesis by blast
    next
      case d: False
      from eq have c: "set_bit_32 False a = d"
        by (simp only: canonicalize_low[OF a] canonicalize_other[OF d])
      from ua have "is_upper d \<or> d \<in> set latin1_upper_chars" by (simp only: c)
      from toLowerCase_up[OF this] have "toLowerCase_char d = set_bit_32 True (set_bit_32 False a)"
        by (simp only: c)
      then have "a = toLowerCase_char d" by (simp only: ra)
      then show ?thesis by blast
    qed
  next
    case a: False
    from eq have "a = canonicalize d" by (simp only: canonicalize_other[OF a])
    then show ?thesis by blast
  qed
qed

lemma in_class_iff:
  "in_class ic P d \<longleftrightarrow> (if ic then \<exists>a. P a \<and> canonicalize a = canonicalize d else P d)"
proof (cases ic)
  case True
  have "(\<exists>a. P a \<and> canonicalize a = canonicalize d) \<longleftrightarrow>
        P d \<or> P (canonicalize d) \<or> P (toLowerCase_char d)"
    unfolding canonicalize_eq_iff by blast
  with True show ?thesis by (simp add: in_class_def)
next
  case False
  then show ?thesis by (simp add: in_class_def)
qed

lemma trim_split: "\<exists>z. dropWhile is_space s = trim s @ z"
proof -
  let ?u = "dropWhile is_space s"
  have "rev (rev ?u) = rev (dropWhile is_space (rev ?u)) @ rev (takeWhile is_space (rev ?u))"
    by (metis rev_append takeWhile_dropWhile_id)
  then have "?u = trim s @ rev (takeWhile is_space (rev ?u))"
    by (simp add: trim_def)
  then show ?thesis by blast
qed

lemma trim_hd: "trim s \<noteq> [] \<Longrightarrow> \<not> is_space (hd (trim s))"
proof -
  assume ne: "trim s \<noteq> []"
  obtain z where z: "dropWhile is_space s = trim s @ z" using trim_split by blast
  with ne have "hd (dropWhile is_space s) = hd (trim s)" by simp
  moreover from z ne have "dropWhile is_space s \<noteq> []" by auto
  then have "\<not> is_space (hd (dropWhile is_space s))" by (rule hd_dropWhile)
  ultimately show ?thesis by simp
qed

lemma trim_last: "trim s \<noteq> [] \<Longrightarrow> \<not> is_space (last (trim s))"
proof -
  assume ne: "trim s \<noteq> []"
  let ?w = "dropWhile is_space (rev (dropWhile is_space s))"
  from ne have w: "?w \<noteq> []" by (simp add: trim_def)
  then have "\<not> is_space (hd ?w)" by (rule hd_dropWhile)
  moreover have "last (trim s) = hd ?w" using w by (simp add: trim_def last_rev)
  ultimately show ?thesis by simp
qed

lemma dropWhile_id: "xs = [] \<or> \<not> P (hd xs) \<Longrightarrow> dropWhile P xs = xs"
  by (cases xs) auto

lemma trim_idem: "trim (trim s) = trim s"
proof (cases "trim s = []")
  case True
  show ?thesis unfolding True by (simp add: trim_def)
next
  case False
  have a: "dropWhile is_space (trim s) = trim s"
    using trim_hd[OF False] by (intro dropWhile_id) simp
  have "hd (rev (trim s)) = last (trim s)" using False by (simp add: hd_rev)
  then have b: "dropWhile is_space (rev (trim s)) = rev (trim s)"
    using trim_last[OF False] False by (intro dropWhile_id) simp
  show ?thesis
    unfolding trim_def[of "trim s"] a b by simp
qed

lemma heading_trim: "isHeadingOrTitle (trim s) = isHeadingOrTitle s"
  by (simp add: isHeadingOrTitle_def trim_idem)

lemma run_inv_insert: "run_inv ids pf0 acc \<Longrightarrow> run_inv ids pf0 (insert c (fst acc), snd acc)"
  by (auto simp: run_inv_def)

lemma run_inv_push:
  "run_inv ids pf0 acc \<Longrightarrow> context' e \<notin> fst acc \<Longrightarrow> pushed ids e \<Longrightarrow>
   run_inv ids pf0 (insert (context' e) (fst acc), snd acc @ [e])"
  by (auto simp: run_inv_def)

lemma sentence_step_cases:
  "sentence_step t acc s = acc \<or>
   (trim s \<notin> fst acc \<and>
     (sentence_step t acc s = (insert (trim s) (fst acc), snd acc) \<or>
      (\<not> isHeadingOrTitle (trim s) \<and>
       sentence_step t acc s = (insert (trim s) (fst acc), snd acc @ [missing_end_punctuation t s]))))"
  by (simp add: sentence_step_def Let_def)

lemma missing_pushed:
  "\<not> isHeadingOrTitle (trim s) \<Longrightarrow> pushed [''MISSING_END_PUNCTUATION''] (missing_end_punctuation t s)"
  by (simp add: pushed_def missing_end_punctuation_def trim_idem)

lemma sentence_step_inv:
  assumes "run_inv [''MISSING_END_PUNCTUATION''] pf0 acc"
  shows "run_inv [''MISSING_END_PUNCTUATION''] pf0 (sentence_step t acc s)"
proof -
  have c: "context' (missing_end_punctuation t s) = trim s"
    by (simp add: missing_end_punctuation_def)
  from sentence_step_cases[of t acc s] show ?thesis
  proof (elim disjE conjE)
    assume "sentence_step t acc s = acc"
    with assms show ?thesis by simp
  next
    assume "sentence_step t acc s = (insert (trim s) (fst acc), snd acc)"
    with run_inv_insert[OF assms] show ?thesis by simp
  next
    assume a: "trim s \<notin> fst acc" "\<not> isHeadingOrTitle (trim s)"
      "sentence_step t acc s = (insert (trim s) (fst acc), snd acc @ [missing_end_punctuation t s])"
    from run_inv_push[OF assms, of "missing_end_punctuation t s"] a(1) missing_pushed[OF a(2)] c a(3)
    show ?thesis by simp
  qed
qed

lemma sentence_loop_inv:
  "run_inv [''MISSING_END_PUNCTUATION''] pf0 acc \<Longrightarrow>
   run_inv [''MISSING_END_PUNCTUATION''] pf0 (sentence_loop t ss acc)"
  by (induction ss arbitrary: acc) (simp_all add: sentence_step_inv)

lemma sentence_step_fst:
  "fst (sentence_step t acc s) =
     (if 10 \<le> length (trim s) then insert (trim s) (fst acc) else fst acc)"
  by (auto simp: sentence_step_def Let_def)

lemma sentence_loop_fst:
  "fst (sentence_loop t ss acc) = fst acc \<union> sentence_fragments ss"
proof (induction ss arbitrary: acc)
  case Nil
  then show ?case by (simp add: sentence_fragments_def)
next
  case (Cons s ss)
  have "sentence_fragments (s # ss) =
          (if 10 \<le> length (trim s) then insert (trim s) (sentence_fragments ss)
           else sentence_fragments ss)"
    by (auto simp: sentence_fragments_def)
  with Cons show ?case by (auto simp: sentence_step_fst)
qed

lemma sentence_step_known:
  "(10 \<le> length (trim s) \<Longrightarrow> trim s \<in> fst acc) \<Longrightarrow> sentence_step t acc s = acc"
  by (cases "10 \<le> length (trim s)") (auto simp: sentence_step_def Let_def)

lemma sentence_loop_known:
  "sentence_fragments ss \<subseteq> fst acc \<Longrightarrow> sentence_loop t ss acc = acc"
proof (induction ss arbitrary: acc)
  case Nil
  then show ?case by simp
next
  case (Cons s ss)
  have "sentence_step t acc s = acc"
    using Cons.prems by (intro sentence_step_known) (auto simp: sentence_fragments_def)
  moreover have "sentence_fragments ss \<subseteq> fst acc"
    using Cons.prems by (auto simp: sentence_fragments_def)
  ultimately show ?case using Cons.IH by simp
qed

lemma match_step_cases:
  "match_step pat t start fin acc = acc \<or>
   (trim (matched start fin) \<notin> fst acc \<and>
     (match_step pat t start fin acc = (insert (trim (matched start fin)) (fst acc), snd acc) \<or>
      (\<not> isHeadingOrTitle (trim (matched start fin)) \<and>
       match_step pat t start fin acc =
         (insert (trim (matched start fin)) (fst acc), snd acc @ [pattern_error pat t start fin]))))"
  by (simp add: match_step_def Let_def pattern_error_def)

lemma match_step_inv:
  assumes "pattern_ruleId pat \<in> set ids" "run_inv ids pf0 acc"
  shows "run_inv ids pf0 (match_step pat t start fin acc)"
proof -
  have c: "context' (pattern_error pat t start fin) = trim (matched start fin)"
    by (simp add: pattern_error_def)
  from match_step_cases[of pat t start fin acc] show ?thesis
  proof (elim disjE conjE)
    assume "match_step pat t start fin acc = acc"
    with assms show ?thesis by simp
  next
    assume "match_step pat t start fin acc = (insert (trim (matched start fin)) (fst acc), snd acc)"
    with run_inv_insert[OF assms(2)] show ?thesis by simp
  next
    assume a: "trim (matched start fin) \<notin> fst acc" "\<not> isHeadingOrTitle (trim (matched start fin))"
      "match_step pat t start fin acc =
         (insert (trim (matched start fin)) (fst acc), snd acc @ [pattern_error pat t start fin])"
    have "pushed ids (pattern_error pat t start fin)"
      using a(2) assms(1) by (simp add: pushed_def pattern_error_def trim_idem)
    from run_inv_push[OF assms(2), of "pattern_error pat t start fin"] a(1) this c a(3)
    show ?thesis by simp
  qed
qed

lemma match_step_narrowed:
  assumes "narrowed B a b"
  shows "narrowed B (match_step pat t start fin a) (match_step pat t start fin b)"
proof -
  from assms have f: "fst b = fst a \<union> B" and s: "snd b = filter (\<lambda>e. context' e \<notin> B) (snd a)"
    by (simp_all add: narrowed_def)
  show ?thesis
    unfolding narrowed_def match_step_def Let_def f s
    by (cases "trim (matched start fin) \<in> B"; cases "trim (matched start fin) \<in> fst a") auto
qed

lemma pattern_loop_inv:
  assumes "pattern_ruleId pat \<in> set ids" "run_inv ids pf0 acc"
    "pattern_loop pat t cur acc = Some r"
  shows "run_inv ids pf0 r"
proof -
  let ?R = "\<lambda>a (b :: string set \<times> GrammarError list). run_inv ids pf0 a"
  have step: "\<And>start fin a b. ?R a b \<Longrightarrow>
                ?R (match_step pat t start fin a) (match_step pat t start fin b)"
    by (rule match_step_inv[OF assms(1)])
  have "\<exists>r2. pattern_loop pat t cur acc = Some r2 \<and> ?R r r2"
    by (rule pattern_loop_rel[where R = ?R and ?acc1.0 = acc and ?acc2.0 = acc, OF step assms(2) assms(3)])
  then show ?thesis by blast
qed

lemma patterns_loop_inv:
  "set (map pattern_ruleId ps) \<subseteq> set ids \<Longrightarrow> run_inv ids pf0 acc \<Longrightarrow>
   patterns_loop ps t acc = Some r \<Longrightarrow> run_inv ids pf0 r"
proof (induction ps arbitrary: acc)
  case Nil
  then show ?case by simp
next
  case (Cons pat ps)
  from Cons.prems(3) obtain acc' where
    a: "pattern_loop pat t (None, t) acc = Some acc'" and b: "patterns_loop ps t acc' = Some r"
    by (auto split: option.splits)
  from Cons.prems(1) have "pattern_ruleId pat \<in> set ids" by simp
  from pattern_loop_inv[OF this Cons.prems(2) a] have "run_inv ids pf0 acc'" .
  with Cons.IH[OF _ _ b] Cons.prems(1) show ?case by simp
qed

lemma patterns_loop_narrowed:
  "narrowed B a b \<Longrightarrow> patterns_loop ps t a = Some ra \<Longrightarrow>
   \<exists>rb. patterns_loop ps t b = Some rb \<and> narrowed B ra rb"
proof (induction ps arbitrary: a b)
  case Nil
  then show ?case by simp
next
  case (Cons pat ps)
  from Cons.prems(2) obtain a' where
    a: "pattern_loop pat t (None, t) a = Some a'" and r: "patterns_loop ps t a' = Some ra"
    by (auto split: option.splits)
  from pattern_loop_rel[where R = "narrowed B", OF match_step_narrowed Cons.prems(1) a]
  obtain b' where b: "pattern_loop pat t (None, t) b = Some b'" "narrowed B a' b'" by blast
  from Cons.IH[OF b(2) r] b(1) show ?case by simp
qed

lemma patterns_min_len: "\<forall>pat \<in> set patterns. 0 < min_len (regex pat)"
  by (simp add: patterns_def rx_transitive_verb_def rx_hanging_preposition_def
        rx_browser_initiated_def lits_def not_end_punct_def dot_def owed_def)

lemma patterns_loop_total:
  "\<forall>pat \<in> set ps. 0 < min_len (regex pat) \<Longrightarrow> \<exists>r. patterns_loop ps t acc = Some r"
proof (induction ps arbitrary: acc)
  case Nil
  then show ?case by simp
next
  case (Cons pat ps)
  then have "0 < min_len (regex pat)" by simp
  from pattern_loop_total[OF this] obtain a where "pattern_loop pat t (None, t) acc = Some a"
    by blast
  with Cons show ?case by simp
qed

lemma key_inj:
  assumes "CHR ''|'' \<notin> set r1" "CHR ''|'' \<notin> set r2" "c1 @ ''|'' @ r1 = c2 @ ''|'' @ r2"
  shows "c1 = c2 \<and> r1 = r2"
proof -
  have tw: "\<And>c r. CHR ''|'' \<notin> set r \<Longrightarrow>
              takeWhile (\<lambda>x. x \<noteq> CHR ''|'') (rev (c @ ''|'' @ r)) = rev r"
  proof -
    fix c r assume n: "CHR ''|'' \<notin> set r"
    have "takeWhile (\<lambda>x. x \<noteq> CHR ''|'') (rev r @ CHR ''|'' # rev c) =
          rev r @ takeWhile (\<lambda>x. x \<noteq> CHR ''|'') (CHR ''|'' # rev c)"
      using n by (intro takeWhile_append2) auto
    then show "takeWhile (\<lambda>x. x \<noteq> CHR ''|'') (rev (c @ ''|'' @ r)) = rev r" by simp
  qed
  from assms(3) have "takeWhile (\<lambda>x. x \<noteq> CHR ''|'') (rev (c1 @ ''|'' @ r1)) =
                      takeWhile (\<lambda>x. x \<noteq> CHR ''|'') (rev (c2 @ ''|'' @ r2))" by simp
  with tw[OF assms(1)] tw[OF assms(2)] have r: "r1 = r2" by simp
  with assms(3) show ?thesis by simp
qed

lemma error_key_inj:
  "CHR ''|'' \<notin> set (ruleId a) \<Longrightarrow> CHR ''|'' \<notin> set (ruleId b) \<Longrightarrow>
   error_key a = error_key b \<Longrightarrow> context_rule a = context_rule b"
  unfolding error_key_def context_rule_def using key_inj by blast

lemma error_key_of_pair: "context_rule a = context_rule b \<Longrightarrow> error_key a = error_key b"
  by (simp add: error_key_def context_rule_def)

lemma dedup_loop_fresh:
  "distinct (map error_key es) \<Longrightarrow> set (map error_key es) \<inter> seen = {} \<Longrightarrow>
   dedup_loop es seen uniq = uniq @ es"
proof (induction es arbitrary: seen uniq)
  case Nil
  then show ?case by simp
next
  case (Cons e es)
  from Cons.prems have a: "error_key e \<notin> seen" "distinct (map error_key es)"
    "set (map error_key es) \<inter> insert (error_key e) seen = {}" by auto
  from Cons.IH[OF a(2,3)] a(1) show ?case by simp
qed

lemma dedup_loop_props:
  "seen = error_key ` set uniq \<Longrightarrow> distinct (map error_key uniq) \<Longrightarrow>
   distinct (map error_key (dedup_loop es seen uniq)) \<and>
   error_key ` set (dedup_loop es seen uniq) = error_key ` (set uniq \<union> set es)"
proof (induction es arbitrary: seen uniq)
  case Nil
  then show ?case by simp
next
  case (Cons e es)
  show ?case
  proof (cases "error_key e \<in> seen")
    case True
    with Cons.IH[OF Cons.prems] Cons.prems(1) show ?thesis by auto
  next
    case False
    have s: "insert (error_key e) seen = error_key ` set (uniq @ [e])"
      using Cons.prems(1) by auto
    have d: "distinct (map error_key (uniq @ [e]))"
      using Cons.prems False by auto
    from Cons.IH[OF s d] False show ?thesis by auto
  qed
qed

lemma dedup_distinct: "distinct (map error_key (deduplicateErrors es))"
  using dedup_loop_props[of "{}" "[]" es] by (simp add: deduplicateErrors_def)

lemma dedup_keys: "error_key ` set (deduplicateErrors es) = error_key ` set es"
  using dedup_loop_props[of "{}" "[]" es] by (simp add: deduplicateErrors_def)

lemma dedup_length: "length (deduplicateErrors es) = card (error_key ` set es)"
proof -
  have "length (deduplicateErrors es) = length (map error_key (deduplicateErrors es))" by simp
  also have "\<dots> = card (set (map error_key (deduplicateErrors es)))"
    using dedup_distinct by (simp only: distinct_card)
  also have "\<dots> = card (error_key ` set es)" using dedup_keys by simp
  finally show ?thesis .
qed

lemma dedup_subset: "set (dedup_loop es seen uniq) \<subseteq> set uniq \<union> set es"
proof (induction es arbitrary: seen uniq)
  case Nil
  then show ?case by simp
next
  case (Cons e es)
  from Cons.IH[of seen uniq] Cons.IH[of "insert (error_key e) seen" "uniq @ [e]"]
  show ?case by auto
qed

lemma distinct_pairs_of_keys: "distinct (map error_key es) \<Longrightarrow> distinct (map context_rule es)"
proof -
  assume d: "distinct (map error_key es)"
  have "map error_key es = map (\<lambda>(c, r). c @ ''|'' @ r) (map context_rule es)"
    by (simp add: error_key_def context_rule_def)
  with d show ?thesis by (metis distinct_map)
qed

lemma card_pairs_of_keys:
  assumes "\<forall>e \<in> set es. CHR ''|'' \<notin> set (ruleId e)"
  shows "card (error_key ` set es) = card (context_rule ` set es)"
proof -
  have "error_key ` set es = (\<lambda>(c, r). c @ ''|'' @ r) ` (context_rule ` set es)"
    by (auto simp: error_key_def context_rule_def image_image)
  moreover have "inj_on (\<lambda>(c, r). c @ ''|'' @ r) (context_rule ` set es)"
  proof (rule inj_onI)
    fix x y
    assume x: "x \<in> context_rule ` set es" and y: "y \<in> context_rule ` set es"
      and eq: "(case x of (c, r) \<Rightarrow> c @ ''|'' @ r) = (case y of (c, r) \<Rightarrow> c @ ''|'' @ r)"
    from x obtain a where a: "a \<in> set es" "x = context_rule a" by blast
    from y obtain b where b: "b \<in> set es" "y = context_rule b" by blast
    from eq a b have "error_key a = error_key b" by (simp add: error_key_def context_rule_def)
    from error_key_inj[OF _ _ this] assms a b show "x = y" by simp
  qed
  ultimately show ?thesis by (simp add: card_image)
qed

lemma rule_ids_no_bar: "r \<in> set rule_ids \<Longrightarrow> CHR ''|'' \<notin> set r"
  by (auto simp: rule_ids_def pattern_rule_ids_def patterns_def)

lemma pushed_mono: "set ids \<subseteq> set ids' \<Longrightarrow> pushed ids e \<Longrightarrow> pushed ids' e"
  by (auto simp: pushed_def)

lemma run_inv_keys:
  assumes a: "run_inv ids1 pf0 (pf1, nlp)" and b: "run_inv ids2 pf1 (pf2, re)"
    and ids: "set ids1 \<subseteq> set rule_ids" "set ids2 \<subseteq> set rule_ids"
  shows "distinct (map context' (nlp @ re))" "list_all (pushed rule_ids) (nlp @ re)"
    "distinct (map error_key (nlp @ re))"
proof -
  from a b show d: "distinct (map context' (nlp @ re))"
    by (simp add: run_inv_def) blast
  from a b ids show p: "list_all (pushed rule_ids) (nlp @ re)"
    by (auto simp: run_inv_def list_all_iff intro: pushed_mono)
  have "inj_on error_key (set (nlp @ re))"
  proof (rule inj_onI)
    fix x y
    assume x: "x \<in> set (nlp @ re)" and y: "y \<in> set (nlp @ re)" and eq: "error_key x = error_key y"
    from p x y have px: "pushed rule_ids x" and py: "pushed rule_ids y"
      by (auto simp: list_all_iff)
    then have "CHR ''|'' \<notin> set (ruleId x)" "CHR ''|'' \<notin> set (ruleId y)"
      by (auto simp: pushed_def dest: rule_ids_no_bar)
    from error_key_inj[OF this eq] px py have "context' x = context' y"
      by (simp add: context_rule_def pushed_def)
    with d x y show "x = y" by (meson distinct_map inj_onD)
  qed
  moreover from d have "distinct (nlp @ re)" by (simp only: distinct_map)
  ultimately show "distinct (map error_key (nlp @ re))" by (simp only: distinct_map)
qed

lemma dedup_run:
  assumes "run_inv ids1 pf0 (pf1, nlp)" "run_inv ids2 pf1 (pf2, re)"
    "set ids1 \<subseteq> set rule_ids" "set ids2 \<subseteq> set rule_ids"
  shows "deduplicateErrors (nlp @ re) = nlp @ re"
  using dedup_loop_fresh[OF run_inv_keys(3)[OF assms], of "{}" "[]"]
  by (simp add: deduplicateErrors_def)

lemma run_inv_start: "run_inv ids pf (pf, [])"
  by (simp add: run_inv_def)

lemma detect_run:
  "\<exists>nlp pf1. detectIncompleteWithCompromise seg chk t = (nlp, chk\<lparr>processedFragments := pf1\<rparr>) \<and>
     run_inv [''MISSING_END_PUNCTUATION''] (processedFragments chk) (pf1, nlp) \<and>
     pf1 = (if detectIncomplete (options chk) = Some True
            then processedFragments chk \<union> sentence_fragments (seg t) else processedFragments chk) \<and>
     (detectIncomplete (options chk) = Some True \<or> nlp = [])"
proof (cases "detectIncomplete (options chk) = Some True")
  case True
  let ?acc = "sentence_loop t (seg t) (processedFragments chk, [])"
  have "run_inv [''MISSING_END_PUNCTUATION''] (processedFragments chk) ?acc"
    by (rule sentence_loop_inv[OF run_inv_start])
  moreover have "fst ?acc = processedFragments chk \<union> sentence_fragments (seg t)"
    by (simp add: sentence_loop_fst)
  moreover have "detectIncompleteWithCompromise seg chk t = (snd ?acc, chk\<lparr>processedFragments := fst ?acc\<rparr>)"
    using True by (simp add: detectIncompleteWithCompromise_def Let_def)
  ultimately show ?thesis using True by (metis prod.collapse)
next
  case False
  then have "detectIncompleteWithCompromise seg chk t = ([], chk\<lparr>processedFragments := processedFragments chk\<rparr>)"
    by (simp add: detectIncompleteWithCompromise_def)
  with False run_inv_start[of "[''MISSING_END_PUNCTUATION'']" "processedFragments chk"]
  show ?thesis by auto
qed

lemma pattern_rule_ids_sub: "set pattern_rule_ids \<subseteq> set rule_ids"
  by (auto simp: rule_ids_def)

lemma regex_run:
  "\<exists>re pf2. patterns_loop patterns t (pf1, []) = Some (pf2, re) \<and>
     run_inv pattern_rule_ids pf1 (pf2, re)"
proof -
  from patterns_loop_total[OF patterns_min_len] obtain r where
    r: "patterns_loop patterns t (pf1, []) = Some r" by blast
  have "run_inv pattern_rule_ids pf1 r"
    by (rule patterns_loop_inv[OF _ run_inv_start r]) (simp add: pattern_rule_ids_def)
  with r show ?thesis by (metis prod.collapse)
qed

lemma checkPage_run:
  "\<exists>nlp pf1 re pf2.
     detectIncompleteWithCompromise seg chk t = (nlp, chk\<lparr>processedFragments := pf1\<rparr>) \<and>
     checkRegexPatterns (chk\<lparr>processedFragments := pf1\<rparr>) t = Some (re, chk\<lparr>processedFragments := pf2\<rparr>) \<and>
     patterns_loop patterns t (pf1, []) = Some (pf2, re) \<and>
     checkPage seg chk u t =
       Some (\<lparr>url = u, totalErrors = length (nlp @ re), errors = nlp @ re, rawText = t\<rparr>,
             chk\<lparr>processedFragments := pf2\<rparr>) \<and>
     deduplicateErrors (nlp @ re) = nlp @ re \<and>
     run_inv [''MISSING_END_PUNCTUATION''] (processedFragments chk) (pf1, nlp) \<and>
     run_inv pattern_rule_ids pf1 (pf2, re) \<and>
     pf1 = (if detectIncomplete (options chk) = Some True
            then processedFragments chk \<union> sentence_fragments (seg t) else processedFragments chk) \<and>
     (detectIncomplete (options chk) = Some True \<or> nlp = [])"
proof -
  from detect_run[of seg chk t] obtain nlp pf1 where
    d: "detectIncompleteWithCompromise seg chk t = (nlp, chk\<lparr>processedFragments := pf1\<rparr>)"
       "run_inv [''MISSING_END_PUNCTUATION''] (processedFragments chk) (pf1, nlp)"
       "pf1 = (if detectIncomplete (options chk) = Some True
            then processedFragments chk \<union> sentence_fragments (seg t) else processedFragments chk)"
       "detectIncomplete (options chk) = Some True \<or> nlp = []"
    by blast
  from regex_run[of t pf1] obtain re pf2 where
    r: "patterns_loop patterns t (pf1, []) = Some (pf2, re)" "run_inv pattern_rule_ids pf1 (pf2, re)"
    by blast
  have cr: "checkRegexPatterns (chk\<lparr>processedFragments := pf1\<rparr>) t = Some (re, chk\<lparr>processedFragments := pf2\<rparr>)"
    using r(1) by (simp add: checkRegexPatterns_def)
  have dd: "deduplicateErrors (nlp @ re) = nlp @ re"
    by (rule dedup_run[OF d(2) r(2)]) (auto simp: rule_ids_def)
  have "checkPage seg chk u t =
       Some (\<lparr>url = u, totalErrors = length (nlp @ re), errors = nlp @ re, rawText = t\<rparr>,
             chk\<lparr>processedFragments := pf2\<rparr>)"
    using d(1) cr dd by (simp add: checkPage_def Let_def)
  with d r cr dd show ?thesis by blast
qed

lemma missing_not_pattern: "''MISSING_END_PUNCTUATION'' \<notin> set pattern_rule_ids"
  by (simp add: pattern_rule_ids_def patterns_def)

lemma run_inv_rules: "run_inv ids pf0 (pf, es) \<Longrightarrow> e \<in> set es \<Longrightarrow> ruleId e \<in> set ids"
  by (auto simp: run_inv_def list_all_iff pushed_def)

lemma run_inv_contexts: "run_inv ids pf0 (pf, es) \<Longrightarrow> e \<in> set es \<Longrightarrow> context' e \<in> pf \<and> context' e \<notin> pf0"
  by (auto simp: run_inv_def)

lemma run_inv_sub: "run_inv ids pf0 (pf, es) \<Longrightarrow> pf0 \<subseteq> pf"
  by (simp add: run_inv_def)

lemma filter_pattern_rule:
  assumes "run_inv [''MISSING_END_PUNCTUATION''] pf0 (pf1, nlp)" "run_inv pattern_rule_ids pf1 (pf2, re)"
  shows "filter pattern_rule (nlp @ re) = re"
proof -
  have "filter pattern_rule nlp = []"
    using run_inv_rules[OF assms(1)] missing_not_pattern
    by (auto simp: filter_empty_conv pattern_rule_def)
  moreover have "filter pattern_rule re = re"
    using run_inv_rules[OF assms(2)] by (auto simp: filter_id_conv pattern_rule_def)
  ultimately show ?thesis by simp
qed

lemma space_not_word: "is_space c \<Longrightarrow> \<not> is_word_char c"
  by (auto simp: is_space_def is_word_char_def is_upper_def is_lower_def is_digit_def
        upper_chars_def lower_chars_def)

lemma blank_no_boundary: "blank_cursor cur \<Longrightarrow> \<not> at_word_boundary cur"
  by (cases cur) (auto simp: blank_cursor_def at_word_boundary_def space_not_word
        split: option.splits list.splits)

lemma blank_step: "blank_cursor (p, c # cs) \<Longrightarrow> blank_cursor (Some c, cs)"
  by (simp add: blank_cursor_def)

lemma cls_blank:
  "blank_cursor cur \<Longrightarrow> (\<And>c. blank_cursor c \<Longrightarrow> k c = None) \<Longrightarrow> bt (RCls P) fl cur k = None"
  by (cases cur) (auto simp: blank_cursor_def split: list.splits)

lemma notcls_blank:
  "blank_cursor cur \<Longrightarrow> (\<And>c. blank_cursor c \<Longrightarrow> k c = None) \<Longrightarrow> bt (RNotCls P) fl cur k = None"
  by (cases cur) (auto simp: blank_cursor_def split: list.splits)

lemma rep_blank:
  assumes m: "\<And>cur k. blank_cursor cur \<Longrightarrow> (\<And>c. blank_cursor c \<Longrightarrow> k c = None) \<Longrightarrow> m cur k = None"
    and k: "\<And>c. blank_cursor c \<Longrightarrow> k c = None"
  shows "blank_cursor cur \<Longrightarrow> rep m fuel mn mx cur k = None"
proof (induction fuel arbitrary: mn mx cur)
  case 0
  then show ?case by (simp add: k)
next
  case (Suc fuel)
  have a: "m cur (\<lambda>cur'. rep m fuel (mn - 1) (map_option (\<lambda>n. n - 1) mx) cur' k) = None"
    by (rule m[OF Suc.prems]) (rule Suc.IH)
  have b: "m cur (\<lambda>cur'. if length (snd cur') = length (snd cur) then None
                          else rep m fuel 0 (map_option (\<lambda>n. n - 1) mx) cur' k) = None"
    by (rule m[OF Suc.prems]) (simp add: Suc.IH)
  show ?case using a b k[OF Suc.prems] by simp
qed

lemma search_blank:
  "(\<And>cur. blank_cursor cur \<Longrightarrow> bt r fl cur Some = None) \<Longrightarrow> blank_cursor cur \<Longrightarrow>
   rx_search fl r cur = None"
proof (induction fl r cur rule: rx_search.induct)
  case (1 fl r p s)
  have n: "bt r fl (p, s) Some = None" by (rule "1.prems"(1)[OF "1.prems"(2)])
  show ?case
  proof (cases s)
    case Nil
    show ?thesis unfolding rx_search.simps[of fl r p s] using n Nil by simp
  next
    case (Cons c cs)
    with "1.prems"(2) have "blank_cursor (Some c, cs)" by (simp add: blank_step)
    from "1.IH"[OF n Cons "1.prems"(1) this] n Cons show ?thesis
      unfolding rx_search.simps[of fl r p s] by simp
  qed
qed

lemma transitive_verb_blank: "blank_cursor cur \<Longrightarrow> bt rx_transitive_verb fl cur k = None"
  by (simp add: rx_transitive_verb_def blank_no_boundary)

lemma hanging_preposition_blank: "blank_cursor cur \<Longrightarrow> bt rx_hanging_preposition fl cur k = None"
  by (simp add: rx_hanging_preposition_def blank_no_boundary)

lemma browser_initiated_blank: "blank_cursor cur \<Longrightarrow> bt rx_browser_initiated fl cur k = None"
proof -
  assume b: "blank_cursor cur"
  have "rep (bt not_end_punct fl) (0 + length (snd cur)) 0 None cur
          (\<lambda>cur'. bt (seqs [RWordB, RLit ''browser-initiated'', RWordB, Many not_end_punct, REol]) fl cur' k) = None"
  proof (rule rep_blank[OF _ _ b])
    fix c and k' :: "cursor \<Rightarrow> cursor option"
    assume "blank_cursor c" "\<And>c'. blank_cursor c' \<Longrightarrow> k' c' = None"
    then show "bt not_end_punct fl c k' = None"
      unfolding not_end_punct_def by (rule notcls_blank)
  next
    fix c assume "blank_cursor c"
    then show "bt (seqs [RWordB, RLit ''browser-initiated'', RWordB, Many not_end_punct, REol]) fl c k = None"
      by (simp add: blank_no_boundary)
  qed
  then show ?thesis by (simp add: rx_browser_initiated_def)
qed

lemma patterns_blank:
  "pat \<in> set patterns \<Longrightarrow> blank_cursor cur \<Longrightarrow> rx_search (regex_flags pat) (regex pat) cur = None"
  by (rule search_blank)
     (auto simp: patterns_def transitive_verb_blank hanging_preposition_blank browser_initiated_blank)

lemma patterns_loop_blank:
  "set ps \<subseteq> set patterns \<Longrightarrow> list_all is_space t \<Longrightarrow> patterns_loop ps t acc = Some acc"
proof (induction ps arbitrary: acc)
  case Nil
  then show ?case by simp
next
  case (Cons pat ps)
  have "blank_cursor (None, t)" using Cons.prems(2) by (simp add: blank_cursor_def)
  with Cons.prems(1) have "rx_search (regex_flags pat) (regex pat) (None, t) = None"
    by (intro patterns_blank) auto
  then have "pattern_loop pat t (None, t) acc = Some acc"
    by (simp add: pattern_loop.simps[of pat t "(None, t)"])
  with Cons show ?case by simp
qed

lemma starts_with_set: "starts_with s f \<Longrightarrow> set f \<subseteq> set s"
  by (induction s f rule: starts_with.induct) auto

lemma str_includes_set: "str_includes s f \<Longrightarrow> set f \<subseteq> set s"
proof (induction s f rule: str_includes.induct)
  case (1 f)
  then show ?case by simp
next
  case (2 c cs f)
  then show ?case using starts_with_set[of "c # cs" f] by auto
qed

lemma trim_blank: "list_all is_space s \<Longrightarrow> trim s = []"
proof -
  assume "list_all is_space s"
  then have d: "dropWhile is_space s = []" by (simp add: dropWhile_eq_Nil_conv list_all_iff)
  show ?thesis unfolding trim_def d by simp
qed

lemma sentence_loop_blank:
  "\<forall>s \<in> set ss. list_all is_space s \<Longrightarrow> sentence_loop t ss acc = acc"
proof -
  assume a: "\<forall>s \<in> set ss. list_all is_space s"
  have "sentence_fragments ss = {}"
    using a by (auto simp: sentence_fragments_def trim_blank)
  then show ?thesis by (intro sentence_loop_known) simp
qed

lemma search_iff:
  "rx_search fl r (p, s) \<noteq> None \<longleftrightarrow>
   (\<exists>pre suf. s = pre @ suf \<and> bt r fl (if pre = [] then p else Some (last pre), suf) Some \<noteq> None)"
proof (induction s arbitrary: p)
  case Nil
  show ?case by (simp add: rx_search.simps[of fl r p "[]"] split: option.splits)
next
  case (Cons c cs)
  show ?case (is "?L = ?R")
  proof (cases "bt r fl (p, c # cs) Some")
    case (Some e)
    then have "?L" by (simp add: rx_search.simps[of fl r p "c # cs"])
    moreover have "?R"
      using Some by (intro exI[of _ "[]"] exI[of _ "c # cs"]) simp
    ultimately show ?thesis by simp
  next
    case None
    then have l: "?L \<longleftrightarrow> rx_search fl r (Some c, cs) \<noteq> None"
      by (simp add: rx_search.simps[of fl r p "c # cs"])
    have "?R \<longleftrightarrow> (\<exists>pre suf. cs = pre @ suf \<and>
             bt r fl (if pre = [] then Some c else Some (last pre), suf) Some \<noteq> None)"
    proof
      assume ?R
      then obtain pre suf where ps: "c # cs = pre @ suf"
        "bt r fl (if pre = [] then p else Some (last pre), suf) Some \<noteq> None" by blast
      with None have "pre \<noteq> []" by (cases pre) auto
      then obtain pre' where pre: "pre = c # pre'" using ps(1) by (cases pre) auto
      with ps have "cs = pre' @ suf"
        "bt r fl (if pre' = [] then Some c else Some (last pre'), suf) Some \<noteq> None"
        by (auto split: if_splits)
      then show "\<exists>pre suf. cs = pre @ suf \<and>
             bt r fl (if pre = [] then Some c else Some (last pre), suf) Some \<noteq> None" by blast
    next
      assume "\<exists>pre suf. cs = pre @ suf \<and>
             bt r fl (if pre = [] then Some c else Some (last pre), suf) Some \<noteq> None"
      then obtain pre suf where ps: "cs = pre @ suf"
        "bt r fl (if pre = [] then Some c else Some (last pre), suf) Some \<noteq> None" by blast
      then have "c # cs = (c # pre) @ suf \<and>
         bt r fl (if c # pre = [] then p else Some (last (c # pre)), suf) Some \<noteq> None"
        by auto
      then show ?R by blast
    qed
    with l Cons.IH[of "Some c"] show ?thesis by simp
  qed
qed

lemma end_punct_at:
  "bt rx_end_punct no_flags (q, suf) Some \<noteq> None \<longleftrightarrow> (\<exists>c. suf = [c] \<and> c \<in> set ''.!?'')"
  by (cases suf) (auto simp: rx_end_punct_def in_class_def no_flags_def at_eol_def split: list.splits)

lemma rx_end_punct_test: "rx_test no_flags rx_end_punct x = ends_with_terminal x"
proof -
  have "rx_test no_flags rx_end_punct x \<longleftrightarrow> (\<exists>pre c. x = pre @ [c] \<and> c \<in> set ''.!?'')"
    unfolding rx_test_def search_iff end_punct_at by blast
  also have "\<dots> \<longleftrightarrow> ends_with_terminal x"
  proof
    assume "\<exists>pre c. x = pre @ [c] \<and> c \<in> set ''.!?''"
    then show "ends_with_terminal x" by (auto simp: ends_with_terminal_def)
  next
    assume "ends_with_terminal x"
    then have "x = butlast x @ [last x] \<and> last x \<in> set ''.!?''"
      by (simp add: ends_with_terminal_def)
    then show "\<exists>pre c. x = pre @ [c] \<and> c \<in> set ''.!?''" by blast
  qed
  finally show ?thesis .
qed

lemma rep_max0: "rep m fuel 0 (Some 0) cur k = k cur"
  by (cases fuel) simp_all

lemma colon_tail_at:
  "bt rx_colon_tail no_flags (q, suf) Some \<noteq> None \<longleftrightarrow>
   suf = '':'' \<or> (\<exists>c. suf = [CHR '':'', c] \<and> c \<noteq> CHR ''.'')"
proof (cases suf)
  case Nil
  then show ?thesis by (simp add: rx_colon_tail_def no_flags_def)
next
  case (Cons a rest)
  show ?thesis
  proof (cases rest)
    case Nil
    with Cons show ?thesis
      by (auto simp: rx_colon_tail_def no_flags_def same_char_def at_eol_def)
  next
    case (Cons b rest')
    with \<open>suf = a # rest\<close> show ?thesis
      by (cases rest')
         (auto simp: rx_colon_tail_def no_flags_def same_char_def at_eol_def in_class_def rep_max0)
  qed
qed

lemma rx_colon_tail_test:
  "rx_test no_flags rx_colon_tail x \<longleftrightarrow> ends_in_colon x \<or> colon_then_one x"
proof -
  have "rx_test no_flags rx_colon_tail x \<longleftrightarrow>
        (\<exists>pre. x = pre @ '':'') \<or> (\<exists>pre c. x = pre @ [CHR '':'', c] \<and> c \<noteq> CHR ''.'')"
    unfolding rx_test_def search_iff colon_tail_at by blast
  moreover have "(\<exists>pre. x = pre @ '':'') \<longleftrightarrow> ends_in_colon x"
  proof
    assume "ends_in_colon x"
    then have "x = butlast x @ '':''" by (auto simp: ends_in_colon_def dest: append_butlast_last_id)
    then show "\<exists>pre. x = pre @ '':''" by blast
  qed (auto simp: ends_in_colon_def)
  moreover have "(\<exists>pre c. x = pre @ [CHR '':'', c] \<and> c \<noteq> CHR ''.'') \<longleftrightarrow> colon_then_one x"
  proof
    assume c: "colon_then_one x"
    then have x: "x \<noteq> []" and b: "butlast x \<noteq> []"
      by (auto simp: colon_then_one_def) (cases x; cases "tl x"; simp)
    have "x = butlast x @ [last x]" using x by simp
    also have "butlast x = butlast (butlast x) @ [last (butlast x)]" using b by simp
    finally have "x = butlast (butlast x) @ [CHR '':'', last x]"
      using c by (simp add: colon_then_one_def)
    with c show "\<exists>pre c. x = pre @ [CHR '':'', c] \<and> c \<noteq> CHR ''.''"
      unfolding colon_then_one_def by blast
  next
    assume "\<exists>pre c. x = pre @ [CHR '':'', c] \<and> c \<noteq> CHR ''.''"
    then obtain pre c where "x = pre @ [CHR '':'', c]" "c \<noteq> CHR ''.''" by blast
    then show "colon_then_one x"
      by (simp add: colon_then_one_def butlast_append)
  qed
  ultimately show ?thesis by simp
qed

lemma isContentSentence_iff:
  "isContentSentence s \<longleftrightarrow>
     15 \<le> length s \<and> 4 \<le> length (words_of s) \<and>
     \<not> ends_in_colon (trim s) \<and> \<not> colon_then_one (trim s) \<and>
     (rx_test flag_i rx_subject_verb s \<or>
      (7 \<le> length (words_of s) \<and> 20 * special_count s < length s \<and> \<not> has_code_word s))"
  unfolding isContentSentence_def Let_def rx_colon_tail_test words_of_def has_code_word_def
    special_count_def
  by auto

lemma not_skipped_not_heading: "\<not> shouldSkipText s \<Longrightarrow> \<not> isHeadingOrTitle (trim s)"
  by (auto simp: shouldSkipText_def Let_def isHeadingOrTitle_def trim_idem split: if_splits)

lemma no_overlap_snoc:
  "no_overlap xs \<Longrightarrow> list_all (\<lambda>f. \<not> str_includes s f \<and> \<not> str_includes f s) xs \<Longrightarrow>
   no_overlap (xs @ [s])"
  by (induction xs) auto

lemma str_includes_refl: "str_includes s s"
proof -
  have "starts_with s s" by (induction s) auto
  then show ?thesis by (cases s) auto
qed

lemma analyze_sentence_inv:
  assumes "analyzer_inv acc"
  shows "analyzer_inv (analyze_sentence a paragraph acc sentence)"
proof -
  let ?s = "trim sentence"
  let ?clear = "list_all (\<lambda>f. \<not> str_includes ?s f \<and> \<not> str_includes f ?s) (fst acc)"
  have push: "analyzer_inv (set_add (fst acc) ?s, snd acc @ [e])"
    if c: "?clear" and e: "context' e = ?s" for e
  proof -
    from c have "?s \<notin> set (fst acc)"
      using str_includes_refl[of ?s] by (auto simp: list_all_iff)
    then have sa: "set_add (fst acc) ?s = fst acc @ [?s]" by (simp add: set_add_def)
    from assms have eq: "fst acc = map context' (snd acc)" and no: "no_overlap (fst acc)"
      unfolding analyzer_inv_def by blast+
    have "no_overlap (fst acc @ [?s])" by (rule no_overlap_snoc[OF no c])
    moreover have "fst acc @ [?s] = map context' (snd acc @ [e])" using eq e by simp
    ultimately show ?thesis unfolding analyzer_inv_def sa by simp
  qed
  have ex: "list_ex (\<lambda>fragment. str_includes ?s fragment \<or> str_includes fragment ?s) (fst acc) = (\<not> ?clear)"
    by (auto simp: list_ex_iff list_all_iff)
  show ?thesis
    unfolding analyze_sentence_def Let_def ex
    using assms push by (auto split: if_splits)
qed

lemma sentences_loop_inv:
  "analyzer_inv acc \<Longrightarrow> analyzer_inv (sentences_loop a paragraph ss acc)"
  by (induction ss arbitrary: acc) (simp_all add: analyze_sentence_inv)

lemma analyze_paragraph_inv:
  "analyzer_inv acc \<Longrightarrow> analyzer_inv (analyze_paragraph a acc paragraph)"
  by (simp add: analyze_paragraph_def sentences_loop_inv)

lemma paragraphs_loop_inv:
  "analyzer_inv acc \<Longrightarrow> analyzer_inv (paragraphs_loop a ps acc)"
  by (induction ps arbitrary: acc) (simp_all add: analyze_paragraph_inv)

lemma analyzeText_no_overlap: "no_overlap (map context' (analyzeText a t))"
proof -
  have "analyzer_inv ([], [])" by (simp add: analyzer_inv_def)
  from paragraphs_loop_inv[OF this, of a "paragraphs_from [] t"]
  have "fst (paragraphs_loop a (paragraphs_from [] t) ([], [])) = map context' (analyzeText a t)"
    and "no_overlap (fst (paragraphs_loop a (paragraphs_from [] t) ([], [])))"
    unfolding analyzer_inv_def analyzeText_def by blast+
  then show ?thesis by (simp only:)
qed

lemma pattern_errors_are_new:
  "\<exists>res chk'.
     checkPage sentences (chk\<lparr>options := (options chk)\<lparr>detectIncomplete := Some True\<rparr>\<rparr>) u t = Some (res, chk') \<and>
     distinct (map (\<lambda>e. trim (context' e)) (errors res)) \<and>
     list_all (\<lambda>e. context' e \<notin> processedFragments chk \<union> sentence_fragments (sentences t))
       (filter pattern_rule (errors res))"
proof -
  let ?cT = "chk\<lparr>options := (options chk)\<lparr>detectIncomplete := Some True\<rparr>\<rparr>"
  from checkPage_run[of sentences ?cT t u] obtain nlp pf1 re pf2 where
    T: "checkPage sentences ?cT u t =
          Some (\<lparr>url = u, totalErrors = length (nlp @ re), errors = nlp @ re, rawText = t\<rparr>,
                ?cT\<lparr>processedFragments := pf2\<rparr>)"
       "run_inv [''MISSING_END_PUNCTUATION''] (processedFragments chk) (pf1, nlp)"
       "run_inv pattern_rule_ids pf1 (pf2, re)"
       "pf1 = processedFragments chk \<union> sentence_fragments (sentences t)"
    by auto
  have "filter pattern_rule (nlp @ re) = re" by (rule filter_pattern_rule[OF T(2,3)])
  moreover have "list_all (\<lambda>e. context' e \<notin> pf1) re"
    using run_inv_contexts[OF T(3)] by (auto simp: list_all_iff)
  moreover have "distinct (map (\<lambda>e. trim (context' e)) (nlp @ re))"
  proof -
    have k: "distinct (map context' (nlp @ re))" "list_all (pushed rule_ids) (nlp @ re)"
      using run_inv_keys(1,2)[OF T(2,3)] by (auto simp: rule_ids_def)
    have "map (\<lambda>e. trim (context' e)) (nlp @ re) = map context' (nlp @ re)"
      using k(2) by (intro map_cong) (auto simp: list_all_iff pushed_def)
    with k(1) show ?thesis by (simp only:)
  qed
  ultimately show ?thesis using T(1,4) by simp
qed

text \<open>
  Claim C1. For every text, every splitter of sentences and every checker, \<^verbatim>\<open>checkPage\<close>
  returns a result whose \<^verbatim>\<open>totalErrors\<close> is the length of \<^verbatim>\<open>errors\<close>; no two
  entries of \<^verbatim>\<open>errors\<close> agree on both the trimmed context and the rule; and the
  length of \<^verbatim>\<open>errors\<close> is the number of distinct pairs of trimmed context and rule
  among the errors the two detectors produced.
\<close>

theorem total_errors_counts_distinct_pairs:
  "\<exists>nlpErrors this1 regexErrors res this2.
     detectIncompleteWithCompromise sentences chk t = (nlpErrors, this1) \<and>
     checkRegexPatterns this1 t = Some (regexErrors, this2) \<and>
     checkPage sentences chk u t = Some (res, this2) \<and>
     totalErrors res = length (errors res) \<and>
     distinct (map context_rule (errors res)) \<and>
     length (errors res) = card (context_rule ` set (nlpErrors @ regexErrors))"
proof -
  from checkPage_run[of sentences chk t u] obtain nlp pf1 re pf2 where
    r: "detectIncompleteWithCompromise sentences chk t = (nlp, chk\<lparr>processedFragments := pf1\<rparr>)"
       "checkRegexPatterns (chk\<lparr>processedFragments := pf1\<rparr>) t = Some (re, chk\<lparr>processedFragments := pf2\<rparr>)"
       "checkPage sentences chk u t =
          Some (\<lparr>url = u, totalErrors = length (nlp @ re), errors = nlp @ re, rawText = t\<rparr>,
                chk\<lparr>processedFragments := pf2\<rparr>)"
       "deduplicateErrors (nlp @ re) = nlp @ re"
       "run_inv [''MISSING_END_PUNCTUATION''] (processedFragments chk) (pf1, nlp)"
       "run_inv pattern_rule_ids pf1 (pf2, re)"
    by blast
  have bar: "\<forall>e \<in> set (nlp @ re). CHR ''|'' \<notin> set (ruleId e)"
    using run_inv_rules[OF r(5)] run_inv_rules[OF r(6)]
    by (auto intro!: rule_ids_no_bar simp: rule_ids_def)
  have "distinct (map error_key (nlp @ re))"
    using dedup_distinct[of "nlp @ re"] r(4) by simp
  then have d: "distinct (map context_rule (nlp @ re))" by (rule distinct_pairs_of_keys)
  have "length (nlp @ re) = card (error_key ` set (nlp @ re))"
    using dedup_length[of "nlp @ re"] r(4) by simp
  also have "\<dots> = card (context_rule ` set (nlp @ re))" by (rule card_pairs_of_keys[OF bar])
  finally have l: "length (nlp @ re) = card (context_rule ` set (nlp @ re))" .
  from r(1,2,3) d l show ?thesis by simp
qed

text \<open>
  Claim C10. Within one call of \<^verbatim>\<open>checkPage\<close> no two errors of the result have the
  same trimmed context, whatever their rules: the set of processed fragments lets each
  trimmed fragment through once, across both detectors. Every reported context is a
  fragment that the call has added to the set, and none that was in it before.
\<close>

theorem no_two_errors_share_a_context:
  "\<exists>res chk'. checkPage sentences chk u t = Some (res, chk') \<and>
     distinct (map (\<lambda>e. trim (context' e)) (errors res)) \<and>
     set (map (\<lambda>e. trim (context' e)) (errors res))
       \<subseteq> processedFragments chk' - processedFragments chk"
proof -
  from checkPage_run[of sentences chk t u] obtain nlp pf1 re pf2 where
    r: "checkPage sentences chk u t =
          Some (\<lparr>url = u, totalErrors = length (nlp @ re), errors = nlp @ re, rawText = t\<rparr>,
                chk\<lparr>processedFragments := pf2\<rparr>)"
       "run_inv [''MISSING_END_PUNCTUATION''] (processedFragments chk) (pf1, nlp)"
       "run_inv pattern_rule_ids pf1 (pf2, re)"
    by blast
  have k: "distinct (map context' (nlp @ re))" "list_all (pushed rule_ids) (nlp @ re)"
    using run_inv_keys(1,2)[OF r(2,3)] by (auto simp: rule_ids_def)
  have m: "map (\<lambda>e. trim (context' e)) (nlp @ re) = map context' (nlp @ re)"
    using k(2) by (intro map_cong) (auto simp: list_all_iff pushed_def)
  with k(1) have d: "distinct (map (\<lambda>e. trim (context' e)) (nlp @ re))" by (simp only:)
  have "set (map context' (nlp @ re)) \<subseteq> pf2 - processedFragments chk"
    using run_inv_contexts[OF r(2)] run_inv_contexts[OF r(3)] run_inv_sub[OF r(2)] run_inv_sub[OF r(3)]
    by auto
  with m have "set (map (\<lambda>e. trim (context' e)) (nlp @ re)) \<subseteq> pf2 - processedFragments chk"
    by (simp only:)
  with d r(1) show ?thesis by auto
qed

text \<open>
  Claim C6. No error of a result has a context that \<^verbatim>\<open>isHeadingOrTitle\<close> accepts:
  the sentence detector and the pattern matcher both test the trimmed fragment against the
  heading predicate before they push an error.
\<close>

theorem headings_are_never_reported:
  "\<exists>res chk'. checkPage sentences chk u t = Some (res, chk') \<and>
     list_all (\<lambda>e. \<not> isHeadingOrTitle (context' e)) (errors res)"
proof -
  from checkPage_run[of sentences chk t u] obtain nlp pf1 re pf2 where
    r: "checkPage sentences chk u t =
          Some (\<lparr>url = u, totalErrors = length (nlp @ re), errors = nlp @ re, rawText = t\<rparr>,
                chk\<lparr>processedFragments := pf2\<rparr>)"
       "run_inv [''MISSING_END_PUNCTUATION''] (processedFragments chk) (pf1, nlp)"
       "run_inv pattern_rule_ids pf1 (pf2, re)"
    by blast
  have "list_all (pushed rule_ids) (nlp @ re)"
    using run_inv_keys(2)[OF r(2,3)] by (auto simp: rule_ids_def)
  then have "list_all (\<lambda>e. \<not> isHeadingOrTitle (context' e)) (nlp @ re)"
    by (auto simp: list_all_iff pushed_def)
  with r(1) show ?thesis by simp
qed


text \<open>
  Claim C7, as the code has it. The set of processed fragments is created by the
  constructor and kept by the checker: a second call of \<^verbatim>\<open>checkPage\<close> on the same
  checker with the same text finds every fragment of the first call already processed,
  reports no error and leaves the checker as it was.
\<close>

theorem second_run_reports_nothing:
  "\<exists>r1 chk1 r2.
     checkPage sentences chk u t = Some (r1, chk1) \<and>
     checkPage sentences chk1 u t = Some (r2, chk1) \<and>
     errors r2 = [] \<and> totalErrors r2 = 0"
proof -
  from checkPage_run[of sentences chk t u] obtain nlp pf1 re pf2 where
    r: "checkPage sentences chk u t =
          Some (\<lparr>url = u, totalErrors = length (nlp @ re), errors = nlp @ re, rawText = t\<rparr>,
                chk\<lparr>processedFragments := pf2\<rparr>)"
       "patterns_loop patterns t (pf1, []) = Some (pf2, re)"
       "run_inv pattern_rule_ids pf1 (pf2, re)"
       "pf1 = (if detectIncomplete (options chk) = Some True
            then processedFragments chk \<union> sentence_fragments (sentences t) else processedFragments chk)"
    by blast
  let ?c1 = "chk\<lparr>processedFragments := pf2\<rparr>"
  have sub: "pf1 \<subseteq> pf2" using run_inv_sub[OF r(3)] .
  have det: "detectIncompleteWithCompromise sentences ?c1 t = ([], ?c1)"
  proof (cases "detectIncomplete (options chk) = Some True")
    case True
    with r(4) sub have "sentence_fragments (sentences t) \<subseteq> fst (pf2, [] :: GrammarError list)" by auto
    from sentence_loop_known[OF this] True show ?thesis
      by (simp add: detectIncompleteWithCompromise_def Let_def)
  next
    case False
    then show ?thesis by (simp add: detectIncompleteWithCompromise_def)
  qed
  have "narrowed pf2 (pf1, []) (pf2, [])" using sub by (auto simp: narrowed_def)
  from patterns_loop_narrowed[OF this r(2)] obtain rb where
    rb: "patterns_loop patterns t (pf2, []) = Some rb" "narrowed pf2 (pf2, re) rb" by blast
  have "filter (\<lambda>e. context' e \<notin> pf2) re = []"
    using run_inv_contexts[OF r(3)] by (auto simp: filter_empty_conv)
  with rb(2) have "rb = (pf2, [])" by (cases rb) (auto simp: narrowed_def)
  with rb(1) have "checkRegexPatterns ?c1 t = Some ([], ?c1)"
    by (simp add: checkRegexPatterns_def)
  with det have "checkPage sentences ?c1 u t =
     Some (\<lparr>url = u, totalErrors = 0, errors = [], rawText = t\<rparr>, ?c1)"
    by (simp add: checkPage_def deduplicateErrors_def)
  with r(1) show ?thesis by simp
qed

text \<open>
  Claim C4, as the code has it. Without \<^verbatim>\<open>detectIncomplete\<close> every error of the
  result is one of the pattern matcher (none is \<^verbatim>\<open>MISSING_END_PUNCTUATION\<close>). With
  it, the errors of the pattern matcher are those of the run without it, in the same order,
  less the ones whose context is the trimmed text of a sentence of ten code units or more:
  the sentence detector has recorded these as processed, reported or not.
\<close>

theorem detectIncomplete_false_and_the_pattern_matcher:
  "\<exists>rT cT rF cF.
     checkPage sentences (chk\<lparr>options := (options chk)\<lparr>detectIncomplete := Some True\<rparr>\<rparr>) u t = Some (rT, cT) \<and>
     checkPage sentences (chk\<lparr>options := (options chk)\<lparr>detectIncomplete := Some False\<rparr>\<rparr>) u t = Some (rF, cF) \<and>
     list_all pattern_rule (errors rF) \<and>
     filter pattern_rule (errors rT) =
       filter (\<lambda>e. context' e \<notin> sentence_fragments (sentences t)) (errors rF)"
proof -
  let ?cT = "chk\<lparr>options := (options chk)\<lparr>detectIncomplete := Some True\<rparr>\<rparr>"
  let ?cF = "chk\<lparr>options := (options chk)\<lparr>detectIncomplete := Some False\<rparr>\<rparr>"
  let ?pf0 = "processedFragments chk"
  from checkPage_run[of sentences ?cT t u] obtain nlp pf1 re pf2 where
    T: "checkPage sentences ?cT u t =
          Some (\<lparr>url = u, totalErrors = length (nlp @ re), errors = nlp @ re, rawText = t\<rparr>,
                ?cT\<lparr>processedFragments := pf2\<rparr>)"
       "patterns_loop patterns t (pf1, []) = Some (pf2, re)"
       "run_inv [''MISSING_END_PUNCTUATION''] ?pf0 (pf1, nlp)"
       "run_inv pattern_rule_ids pf1 (pf2, re)"
       "pf1 = ?pf0 \<union> sentence_fragments (sentences t)"
    by auto
  from checkPage_run[of sentences ?cF t u] obtain nlpF pf1F reF pf2F where
    F: "checkPage sentences ?cF u t =
          Some (\<lparr>url = u, totalErrors = length (nlpF @ reF), errors = nlpF @ reF, rawText = t\<rparr>,
                ?cF\<lparr>processedFragments := pf2F\<rparr>)"
       "patterns_loop patterns t (pf1F, []) = Some (pf2F, reF)"
       "run_inv pattern_rule_ids pf1F (pf2F, reF)"
       "pf1F = ?pf0" "nlpF = []"
    by auto
  have "narrowed pf1 (?pf0, []) (pf1, [])" using T(5) by (auto simp: narrowed_def)
  from patterns_loop_narrowed[OF this F(2)[unfolded F(4)]] T(2)
  have n: "narrowed pf1 (pf2F, reF) (pf2, re)" by auto
  have "re = filter (\<lambda>e. context' e \<notin> pf1) reF" using n by (simp add: narrowed_def)
  also have "\<dots> = filter (\<lambda>e. context' e \<notin> sentence_fragments (sentences t)) reF"
    using run_inv_contexts[OF F(3)] F(4) T(5) by (intro filter_cong) auto
  finally have re: "re = filter (\<lambda>e. context' e \<notin> sentence_fragments (sentences t)) reF" .
  have "list_all pattern_rule reF"
    using run_inv_rules[OF F(3)] by (auto simp: list_all_iff pattern_rule_def)
  moreover have "filter pattern_rule (nlp @ re) = re" by (rule filter_pattern_rule[OF T(3,4)])
  ultimately show ?thesis using T(1) F(1) F(5) re by simp
qed


text \<open>
  Claim C7 as stated fails: two consecutive calls on one checker with the text
  \<^verbatim>\<open>We have to go on\<close> report one error, then none.
\<close>

theorem second_run_differs_from_first:
  "map_option (map_prod (map ruleId) (map ruleId))
     (check_twice segment (constructor default_options) ''https://example.com'' ''We have to go on'') =
   Some ([''MISSING_END_PUNCTUATION''], [])"
  by code_simp

text \<open>
  Claim C4 as stated fails: for the text \<^verbatim>\<open>Go visit it to\<close> the pattern matcher
  reports a hanging preposition without \<^verbatim>\<open>detectIncomplete\<close> and nothing with it.
\<close>

theorem pattern_matcher_output_depends_on_detectIncomplete:
  "map_option (map ruleId \<circ> filter pattern_rule \<circ> errors \<circ> fst)
     (checkPage segment (constructor (default_options\<lparr>detectIncomplete := Some False\<rparr>))
        ''https://example.com'' ''Go visit it to'') =
   Some [''HANGING_PREPOSITION''] \<and>
   map_option (map ruleId \<circ> filter pattern_rule \<circ> errors \<circ> fst)
     (checkPage segment (constructor (default_options\<lparr>detectIncomplete := Some True\<rparr>))
        ''https://example.com'' ''Go visit it to'') =
   Some []"
  by code_simp

text \<open>
  Claim C9. \<^verbatim>\<open>checkPage\<close> returns a result for every text, every checker and every
  splitter of sentences: the loops of the pattern matcher end. For a text that is empty or
  white space only, with a splitter whose units are parts of the text, the result has no
  error and \<^verbatim>\<open>totalErrors\<close> 0, and the checker is left as it was.
\<close>

theorem degenerate_input_gives_no_error:
  "(\<exists>res chk'. checkPage sentences chk u t = Some (res, chk')) \<and>
   (list_all is_space t \<and> list_all (str_includes t) (sentences t) \<longrightarrow>
      checkPage sentences chk u t =
        Some (\<lparr>url = u, totalErrors = 0, errors = [], rawText = t\<rparr>, chk))"
proof
  from checkPage_run[of sentences chk t u]
  show "\<exists>res chk'. checkPage sentences chk u t = Some (res, chk')" by blast
next
  show "list_all is_space t \<and> list_all (str_includes t) (sentences t) \<longrightarrow>
      checkPage sentences chk u t =
        Some (\<lparr>url = u, totalErrors = 0, errors = [], rawText = t\<rparr>, chk)"
  proof
    assume a: "list_all is_space t \<and> list_all (str_includes t) (sentences t)"
    have "\<forall>s \<in> set (sentences t). list_all is_space s"
    proof
      fix s assume "s \<in> set (sentences t)"
      with a have "str_includes t s" by (simp add: list_all_iff)
      from str_includes_set[OF this] a show "list_all is_space s" by (auto simp: list_all_iff)
    qed
    from sentence_loop_blank[OF this]
    have "detectIncompleteWithCompromise sentences chk t = ([], chk)"
      by (simp add: detectIncompleteWithCompromise_def Let_def)
    moreover have "checkRegexPatterns chk t = Some ([], chk)"
      using patterns_loop_blank[of patterns t "(processedFragments chk, [])"] a
      by (simp add: checkRegexPatterns_def)
    ultimately show "checkPage sentences chk u t =
        Some (\<lparr>url = u, totalErrors = 0, errors = [], rawText = t\<rparr>, chk)"
      by (simp add: checkPage_def deduplicateErrors_def)
  qed
qed

theorem degenerate_input_witness:
  "list_all is_space blank_text \<and> list_all (str_includes blank_text) (segment blank_text) \<and>
   checkPage segment (constructor default_options) ''https://example.com'' blank_text =
     Some (\<lparr>url = ''https://example.com'', totalErrors = 0, errors = [], rawText = blank_text\<rparr>,
           constructor default_options)"
proof -
  have h: "list_all is_space blank_text \<and> list_all (str_includes blank_text) (segment blank_text)"
    by code_simp
  from degenerate_input_gives_no_error[of segment "constructor default_options"
         "''https://example.com''" blank_text] h
  show ?thesis by blast
qed

text \<open>
  Claim C5, at the unit \<^verbatim>\<open>We will score the game 2:1\<close>. The unit passes the noise
  filters, lacks terminal punctuation, does not end in a colon and passes the content test
  as the claim words it, so the claim has one error \<^verbatim>\<open>MISSING_END_PUNCTUATION\<close>
  emitted for it. The code emits none, neither in the sentence detector nor in the whole
  analysis: the test of \<^verbatim>\<open>isContentSentence\<close> that the source comments
  \<^verbatim>\<open>Skip headings that end with colons\<close> is \<^verbatim>\<open>/:[^.]?$/\<close>, which also
  matches a colon followed by one more code unit, where the test under the same comment in
  \<^verbatim>\<open>shouldSkipText\<close> ends in \<^verbatim>\<open>:$\<close>.
\<close>

theorem colon_before_last_character_is_refused:
  "10 \<le> length (trim score_line) \<and>
   \<not> shouldSkipText score_line \<and>
   \<not> ends_with_terminal (trim score_line) \<and>
   \<not> ends_in_colon (trim score_line) \<and>
   spec_content_test score_line \<and>
   \<not> isContentSentence score_line \<and>
   snd (sentence_step score_line ({}, []) score_line) = [] \<and>
   segment score_line = [score_line] \<and>
   map_option (errors \<circ> fst)
     (checkPage segment (constructor default_options) ''https://example.com'' score_line) = Some []"
  by code_simp

lemma scenario1_default_run:
  "map_option (errors \<circ> fst) (checkPage segment (constructor default_options) u scenario1) = Some []"
  by code_simp

lemma scenario1_patterns_only:
  "map_option (errors \<circ> fst)
     (checkPage sentences (constructor (default_options\<lparr>detectIncomplete := Some False\<rparr>)) u scenario1) =
   Some [\<lparr>message = ''Sentence ends with a preposition'',
           context' = ''Please visit our site to'',
           suggestions = [''Complete the prepositional phrase with an object'', ''Add proper punctuation''],
           ruleId = ''HANGING_PREPOSITION'',
           position = \<lparr>offset = 41, length' = 24\<rparr>\<rparr>]"
  by code_simp

lemma scenario1_units:
  "segment scenario1 = [''Contact Us'', ''We appreciate your business.'', '' Please visit our site to'']"
  by code_simp

text \<open>
  Claim C8, as the code has it. The input of scenario 1 has the three units
  \<^verbatim>\<open>Contact Us\<close>, \<^verbatim>\<open>We appreciate your business.\<close> and
  \<^verbatim>\<open>Please visit our site to\<close>. With the default options the analysis returns no
  error at all: the sentence detector records the last unit as processed without reporting
  it (five tokens, no subject and auxiliary), and the pattern matcher then skips its own
  match of the same fragment. Without \<^verbatim>\<open>detectIncomplete\<close> it returns exactly one
  error, \<^verbatim>\<open>HANGING_PREPOSITION\<close> with the context \<^verbatim>\<open>Please visit our site to\<close>.
  No error has the context \<^verbatim>\<open>Contact Us\<close> in either case.
\<close>

theorem scenario1_result:
  "segment scenario1 = [''Contact Us'', ''We appreciate your business.'', '' Please visit our site to''] \<and>
   map_option (errors \<circ> fst) (checkPage segment (constructor default_options) u scenario1) = Some [] \<and>
   map_option (map (\<lambda>e. (ruleId e, context' e)) \<circ> errors \<circ> fst)
     (checkPage sentences (constructor (default_options\<lparr>detectIncomplete := Some False\<rparr>)) u scenario1) =
   Some [(''HANGING_PREPOSITION'', ''Please visit our site to'')]"
proof -
  have "map_option (map (\<lambda>e. (ruleId e, context' e)) \<circ> errors \<circ> fst)
     (checkPage sentences (constructor (default_options\<lparr>detectIncomplete := Some False\<rparr>)) u scenario1) =
     map_option (map (\<lambda>e. (ruleId e, context' e)))
       (map_option (errors \<circ> fst)
         (checkPage sentences (constructor (default_options\<lparr>detectIncomplete := Some False\<rparr>)) u scenario1))"
    by (simp add: option.map_comp comp_def)
  then show ?thesis
    unfolding scenario1_patterns_only using scenario1_units scenario1_default_run by simp
qed

text \<open>
  Claim C8 as stated fails: with the default options the analysis of the input of
  scenario 1 returns no error, not one.
\<close>

theorem scenario1_reports_nothing:
  "map_option (length \<circ> errors \<circ> fst)
     (checkPage segment (constructor default_options) ''https://example.com'' scenario1) = Some 0"
proof -
  have "map_option (length \<circ> errors \<circ> fst)
     (checkPage segment (constructor default_options) ''https://example.com'' scenario1) =
     map_option length (map_option (errors \<circ> fst)
       (checkPage segment (constructor default_options) ''https://example.com'' scenario1))"
    by (simp add: option.map_comp comp_def)
  then show ?thesis unfolding scenario1_default_run by simp
qed

text \<open>
  Claim C2, as the code has it. In \<^verbatim>\<open>analyzeText\<close> of sentenceAnalyzer.ts a sentence
  whose trimmed text equals, contains or is contained in a fragment reported before is
  never reported: no context of its errors equals or contains another. In
  \<^verbatim>\<open>checkPage\<close> of grammarChecker.ts the suppression across the sentence detector and
  the pattern matcher is by equality: no two errors of a result have the same trimmed
  context, and no error of the pattern matcher has a context equal to a fragment that was
  processed before the call, or to the trimmed text of a sentence of ten code units or more
  of this call.
\<close>

theorem containment_in_analyzeText_equality_in_checkPage:
  "no_overlap (map context' (analyzeText a t)) \<and>
   (\<exists>res chk'.
      checkPage sentences (chk\<lparr>options := (options chk)\<lparr>detectIncomplete := Some True\<rparr>\<rparr>) u t
        = Some (res, chk') \<and>
      distinct (map (\<lambda>e. trim (context' e)) (errors res)) \<and>
      list_all (\<lambda>e. context' e \<notin> processedFragments chk \<union> sentence_fragments (sentences t))
        (filter pattern_rule (errors res)))"
  using analyzeText_no_overlap pattern_errors_are_new by blast

theorem containment_in_analyzeText_witness:
  "map context' (analyzeText plain_analyzer two_paragraphs) = [''We went to the market today''] \<and>
   no_overlap (map context' (analyzeText plain_analyzer two_paragraphs)) \<and>
   str_includes ''We went to the market today'' ''to the market''"
proof -
  have a: "map context' (analyzeText plain_analyzer two_paragraphs) = [''We went to the market today'']"
    by code_simp
  have b: "str_includes ''We went to the market today'' ''to the market''" by code_simp
  from containment_in_analyzeText_equality_in_checkPage[of plain_analyzer two_paragraphs]
  have "no_overlap (map context' (analyzeText plain_analyzer two_paragraphs))" by blast
  with a b show ?thesis by blast
qed

text \<open>
  Claim C2 as stated fails: for the text \<^verbatim>\<open>then we said that It will be sent to\<close>
  the sentence detector reports the whole sentence, and the pattern matcher then reports
  \<^verbatim>\<open>It will be sent to\<close>, which the reported sentence contains.
\<close>

theorem contained_fragment_is_reported:
  "map_option (map (\<lambda>e. (ruleId e, context' e)) \<circ> errors \<circ> fst)
     (checkPage segment (constructor default_options) ''https://example.com'' nested_text) =
   Some [(''MISSING_END_PUNCTUATION'', ''then we said that It will be sent to''),
         (''HANGING_PREPOSITION'', ''It will be sent to'')] \<and>
   str_includes ''then we said that It will be sent to'' ''It will be sent to''"
  by code_simp

end
